theory Spec2Isabelle
  imports
    Complex_Main
    "HOL-Library.AList"
    "HOL-Library.Char_ord"
    "HOL-Library.List_Lexorder"
    "HOL-Library.Product_Lexorder"
    "HOL-Library.Multiset"
    "HOL-Library.Log_Nat"
begin

section \<open>Python values shared by the planner modules\<close>

text \<open>
  The planner package (\<^verbatim>\<open>preferences.py\<close>, \<^verbatim>\<open>weather.py\<close>, \<^verbatim>\<open>places.py\<close>,
  \<^verbatim>\<open>pipeline.py\<close>) is embedded function by function.  Exceptions are values of
  \<open>error + 'a\<close> (\<open>Inl\<close> is the raised exception).  A \<^verbatim>\<open>dict\<close> is an association
  list with distinct keys in insertion order: storing under an existing key
  overwrites in place, storing under a new key appends, which is what
  \<^const>\<open>AList.update\<close> does.  Python \<^verbatim>\<open>str\<close> is \<open>string\<close>, compared by code point
  (the lexicographic order on \<open>char list\<close>); tuples are compared lexicographically.
  Python \<^verbatim>\<open>int\<close> is \<open>int\<close>.  A Python \<^verbatim>\<open>float\<close> is an IEEE 754 double: a finite
  double is the rational number it denotes, and every arithmetic operation
  rounds its exact result to the nearest double (section on doubles below).
\<close>

datatype error = KeyError | ZeroDivisionError | TypeError | ValueError | RuntimeError
  | OverflowError | FloatNotFinite

definition sbind :: "error + 'a \<Rightarrow> ('a \<Rightarrow> error + 'b) \<Rightarrow> error + 'b" where
  "sbind m f = (case m of Inl e \<Rightarrow> Inl e | Inr v \<Rightarrow> f v)"

fun mapM :: "('a \<Rightarrow> error + 'b) \<Rightarrow> 'a list \<Rightarrow> error + 'b list" where
  "mapM f [] = Inr []"
| "mapM f (x # xs) = sbind (f x) (\<lambda>y. sbind (mapM f xs) (\<lambda>ys. Inr (y # ys)))"

definition dict_of :: "('k \<times> 'v) list \<Rightarrow> ('k \<times> 'v) list" where
  \<comment> \<open>a dict display or comprehension: the pairs are stored from left to right\<close>
  "dict_of kvs = fold (\<lambda>(k, v). AList.update k v) kvs []"

definition dict_get :: "('k \<times> 'v) list \<Rightarrow> 'k \<Rightarrow> error + 'v" where
  \<comment> \<open>\<^verbatim>\<open>d[k]\<close>\<close>
  "dict_get d k = (case map_of d k of None \<Rightarrow> Inl KeyError | Some v \<Rightarrow> Inr v)"

definition py_take :: "int \<Rightarrow> 'a list \<Rightarrow> 'a list" where
  \<comment> \<open>\<^verbatim>\<open>xs[:k]\<close>: a negative bound counts from the end\<close>
  "py_take k xs = (if 0 \<le> k then take (nat k) xs else take (length xs - nat (- k)) xs)"

definition py_drop :: "int \<Rightarrow> 'a list \<Rightarrow> 'a list" where
  \<comment> \<open>\<^verbatim>\<open>xs[k:]\<close>\<close>
  "py_drop k xs = (if 0 \<le> k then drop (nat k) xs else drop (length xs - nat (- k)) xs)"

definition lower_char :: "char \<Rightarrow> char" where
  "lower_char c = (if CHR ''A'' \<le> c \<and> c \<le> CHR ''Z'' then char_of (of_char c + (32 :: nat)) else c)"

definition py_lower :: "string \<Rightarrow> string" where
  \<comment> \<open>\<^verbatim>\<open>str.lower()\<close> on ASCII text\<close>
  "py_lower s = map lower_char s"


section \<open>Doubles\<close>

text \<open>
  A finite double is \<open>m * 2 ^ (e - 52)\<close> with an integer \<open>m\<close> of at most 53 bits and
  \<open>- 1022 \<le> e \<le> 1023\<close>.  \<open>round_double q\<close> is the double nearest to the rational
  \<open>q\<close>, ties going to the even \<open>m\<close>, computed with the exponent of \<open>q\<close> itself
  (not below \<open>- 1022\<close>, where the doubles are subnormal); a result of magnitude
  \<open>2 ^ 1024\<close> or more is outside the finite doubles.
\<close>

definition round_half_even :: "rat \<Rightarrow> int" where
  "round_half_even x =
     (let f = \<lfloor>x\<rfloor>; r = x - of_int f
      in if r < 1 / 2 then f else if 1 / 2 < r then f + 1 else if even f then f else f + 1)"

definition exponent_of :: "rat \<Rightarrow> int" where
  \<comment> \<open>for \<open>q \<noteq> 0\<close>, the \<open>e\<close> with \<open>2 ^ e \<le> \<bar>q\<bar> < 2 ^ (e + 1)\<close>\<close>
  "exponent_of q =
     (let d = bitlen (fst (quotient_of \<bar>q\<bar>)) - bitlen (snd (quotient_of \<bar>q\<bar>))
      in if 2 powi d \<le> \<bar>q\<bar> then d else d - 1)"

definition ulp_of :: "rat \<Rightarrow> rat" where
  \<comment> \<open>the spacing of the doubles around \<open>q\<close>\<close>
  "ulp_of q = 2 powi (max (exponent_of q) (- 1022) - 52)"

definition round_double :: "rat \<Rightarrow> rat" where
  "round_double q =
     (if q = 0 then 0 else of_int (round_half_even (q / ulp_of q)) * ulp_of q)"

definition finite_double :: "rat \<Rightarrow> bool" where
  "finite_double x = (\<bar>x\<bar> < 2 ^ 1024)"

text \<open>
  Python's operations on numbers.  \<^verbatim>\<open>a / b\<close> on two \<^verbatim>\<open>int\<close>s is the correctly
  rounded quotient and raises \<^verbatim>\<open>OverflowError\<close> when that is not a finite double;
  so does the conversion of an \<^verbatim>\<open>int\<close> operand to \<^verbatim>\<open>float\<close>.  The operations on
  two floats round their exact result; division by zero raises
  \<^verbatim>\<open>ZeroDivisionError\<close>.  Where the rounded result of a float operation is not
  finite, Python goes on with \<^verbatim>\<open>inf\<close> or \<^verbatim>\<open>nan\<close>; the model does not follow such a
  run and ends it with \<open>FloatNotFinite\<close>, about which no theorem says anything.
\<close>

definition int_true_div :: "int \<Rightarrow> int \<Rightarrow> error + rat" where
  "int_true_div a b =
     (if b = 0 then Inl ZeroDivisionError
      else let r = round_double (of_int a / of_int b)
           in if finite_double r then Inr r else Inl OverflowError)"

definition int_to_float :: "int \<Rightarrow> error + rat" where
  "int_to_float a =
     (let r = round_double (of_int a) in if finite_double r then Inr r else Inl OverflowError)"

definition float_result :: "rat \<Rightarrow> error + rat" where
  "float_result x = (let r = round_double x in if finite_double r then Inr r else Inl FloatNotFinite)"

definition fadd :: "rat \<Rightarrow> rat \<Rightarrow> error + rat" where
  "fadd x y = float_result (x + y)"

definition fsub :: "rat \<Rightarrow> rat \<Rightarrow> error + rat" where
  "fsub x y = float_result (x - y)"

definition fmul :: "rat \<Rightarrow> rat \<Rightarrow> error + rat" where
  "fmul x y = float_result (x * y)"

definition fdiv :: "rat \<Rightarrow> rat \<Rightarrow> error + rat" where
  "fdiv x y = (if y = 0 then Inl ZeroDivisionError else float_result (x / y))"

section \<open>preferences.py\<close>

subsection \<open>proportional_quotas\<close>

text \<open>
  \<^verbatim>\<open>
  def proportional_quotas(weights, n_total):
      total_w = sum(w for _, w in weights)
      if total_w == 0 or n_total <= 0:
          return {c: 0 for c, _ in weights}
      raw = {c: (n_total * w) / total_w for c, w in weights}
      base = {c: floor(v) for c, v in raw.items()}
      rem = n_total - sum(base.values())
      if rem > 0:
          frac = sorted(((raw[c] - base[c], c) for c, _ in weights), reverse=True)
          for i in range(rem):
              base[frac[i % len(frac)][1]] += 1
      return base
  \<close>
  \<^verbatim>\<open>weights\<close> pairs a name with an \<^verbatim>\<open>int\<close> and \<^verbatim>\<open>n_total\<close> is an \<^verbatim>\<open>int\<close>, so
  \<^verbatim>\<open>(n_total * w) / total_w\<close> is the true division of two \<^verbatim>\<open>int\<close>s: a double, or
  \<^verbatim>\<open>OverflowError\<close>.  \<^verbatim>\<open>floor(v)\<close> is the exact integer part of that double, and
  \<^verbatim>\<open>raw[c] - base[c]\<close> subtracts an \<^verbatim>\<open>int\<close> from a float: the \<^verbatim>\<open>int\<close> is converted
  and the difference is rounded.
  \<^verbatim>\<open>sorted(..., reverse=True)\<close> on tuples \<open>(fraction, name)\<close> is the descending
  list of the tuples; two tuples that compare equal are the same value, so the
  reversed ascending sort is the same list.
\<close>

fun bump_loop :: "(rat \<times> string) list \<Rightarrow> (string \<times> int) list \<Rightarrow> nat list \<Rightarrow> error + (string \<times> int) list" where
  "bump_loop fracs base [] = Inr base"
| "bump_loop fracs base (i # rest) =
     (if length fracs = 0 then Inl ZeroDivisionError
      else let k = snd (fracs ! (i mod length fracs))
           in case map_of base k of
                None \<Rightarrow> Inl KeyError
              | Some v \<Rightarrow> bump_loop fracs (AList.update k (v + 1) base) rest)"

definition raw_shares :: "(string \<times> int) list \<Rightarrow> int \<Rightarrow> int \<Rightarrow> error + (string \<times> rat) list" where
  \<comment> \<open>the comprehension \<^verbatim>\<open>{c: (n_total * w) / total_w for c, w in weights}\<close>\<close>
  "raw_shares weights n_total total_w =
     sbind (mapM (\<lambda>(c, w). sbind (int_true_div (n_total * w) total_w) (\<lambda>v. Inr (c, v))) weights)
       (\<lambda>kvs. Inr (dict_of kvs))"

definition float_sub_int :: "rat \<Rightarrow> int \<Rightarrow> error + rat" where
  \<comment> \<open>\<^verbatim>\<open>x - k\<close> for a float \<^verbatim>\<open>x\<close> and an \<^verbatim>\<open>int\<close> \<^verbatim>\<open>k\<close>\<close>
  "float_sub_int x k = sbind (int_to_float k) (\<lambda>y. fsub x y)"

definition frac_pairs :: "(string \<times> rat) list \<Rightarrow> (string \<times> int) list \<Rightarrow> (string \<times> int) list \<Rightarrow> error + (rat \<times> string) list" where
  \<comment> \<open>the generator \<^verbatim>\<open>((raw[c] - base[c], c) for c, _ in weights)\<close>\<close>
  "frac_pairs raw base weights =
     mapM (\<lambda>(c, _). sbind (dict_get raw c) (\<lambda>r. sbind (dict_get base c)
             (\<lambda>b. sbind (float_sub_int r b) (\<lambda>f. Inr (f, c))))) weights"

definition proportional_quotas :: "(string \<times> int) list \<Rightarrow> int \<Rightarrow> error + (string \<times> int) list" where
  "proportional_quotas weights n_total =
     (let total_w = sum_list (map snd weights) in
      if total_w = 0 \<or> n_total \<le> 0 then Inr (dict_of (map (\<lambda>(c, _). (c, 0)) weights))
      else
        sbind (raw_shares weights n_total total_w)
          (\<lambda>raw.
             let base = dict_of (map (\<lambda>(c, v). (c, \<lfloor>v\<rfloor>)) raw);
                 remn = n_total - sum_list (map snd base)
             in if remn > 0 then
                  sbind (frac_pairs raw base weights)
                    (\<lambda>fs. bump_loop (rev (sort fs)) base [0 ..< nat remn])
                else Inr base))"
subsection \<open>build_weighted_sequence\<close>

text \<open>
  \<^verbatim>\<open>PREFS\<close> is the table read once from \<^verbatim>\<open>prefs/preferences.csv\<close> by
  \<^verbatim>\<open>load_prefs\<close>; the file is not part of the sources, so the loaded table is a
  parameter: a list of rows with the columns the code reads, \<^verbatim>\<open>weight\<close> already
  an integer and \<^verbatim>\<open>cat_norm\<close> already lower-cased with underscores.
\<close>

record pref_row =
  traveler_type :: string
  cat_norm :: string
  weight :: int

text \<open>
  \<^verbatim>\<open>
  tprefs = PREFS.loc[PREFS["traveler_type"].str.lower() == traveler_type.lower()].copy()
  cat_weights = (tprefs.groupby(["cat_norm"], as_index=False)["weight"].max()
                       .sort_values(["weight","cat_norm"], ascending=[False,True]))
  weights = list(zip(cat_weights["cat_norm"], cat_weights["weight"]))
  \<close>
  \<^verbatim>\<open>groupby(...).max()\<close> yields one row per distinct \<^verbatim>\<open>cat_norm\<close>, in key order,
  carrying the largest weight of the group; \<^verbatim>\<open>sort_values\<close> then orders the rows
  by weight descending and name ascending.
\<close>

definition group_max :: "pref_row list \<Rightarrow> (string \<times> int) list" where
  "group_max rows =
     fold (\<lambda>r acc. case map_of acc (cat_norm r) of
                      None \<Rightarrow> acc @ [(cat_norm r, weight r)]
                    | Some v \<Rightarrow> AList.update (cat_norm r) (max v (weight r)) acc) rows []"

definition cat_weights :: "pref_row list \<Rightarrow> (string \<times> int) list" where
  "cat_weights tprefs = sort_key (\<lambda>(c, w). (- w, c)) (sort_key fst (group_max tprefs))"

text \<open>
  The sort keys of the loop read \<^verbatim>\<open>weight_map.get(kv, -inf)\<close>, where \<^verbatim>\<open>kv\<close> is
  the item \<open>(cat, q)\<close> of \<^verbatim>\<open>quotas.items()\<close> and the keys of \<^verbatim>\<open>weight_map\<close> are
  category names.  A dictionary key is therefore either a string or a pair, and
  the value read is an integer or an infinity.
\<close>

datatype pykey = KStr string | KPair string int

datatype pynum = NegInf | Num int | PosInf

instantiation pynum :: linorder
begin

fun less_eq_pynum :: "pynum \<Rightarrow> pynum \<Rightarrow> bool" where
  "less_eq_pynum NegInf y = True"
| "less_eq_pynum (Num a) NegInf = False"
| "less_eq_pynum (Num a) (Num b) = (a \<le> b)"
| "less_eq_pynum (Num a) PosInf = True"
| "less_eq_pynum PosInf PosInf = True"
| "less_eq_pynum PosInf y = False"

definition less_pynum :: "pynum \<Rightarrow> pynum \<Rightarrow> bool" where
  "less_pynum x y = (x \<le> y \<and> \<not> y \<le> x)"

instance
proof
  fix x y z :: pynum
  show "(x < y) = (x \<le> y \<and> \<not> y \<le> x)" by (simp add: less_pynum_def)
  show "x \<le> x" by (cases x) simp_all
  show "x \<le> y \<Longrightarrow> y \<le> z \<Longrightarrow> x \<le> z" by (cases x; cases y; cases z) simp_all
  show "x \<le> y \<Longrightarrow> y \<le> x \<Longrightarrow> x = y" by (cases x; cases y) simp_all
  show "x \<le> y \<or> y \<le> x" by (cases x; cases y) auto
qed

end

fun pynum_neg :: "pynum \<Rightarrow> pynum" where
  "pynum_neg NegInf = PosInf"
| "pynum_neg (Num a) = Num (- a)"
| "pynum_neg PosInf = NegInf"

definition weight_map_get :: "(pykey \<times> int) list \<Rightarrow> pykey \<Rightarrow> pynum \<Rightarrow> pynum" where
  \<comment> \<open>\<^verbatim>\<open>weight_map.get(k, default)\<close>\<close>
  "weight_map_get weight_map k dflt = (case map_of weight_map k of None \<Rightarrow> dflt | Some w \<Rightarrow> Num w)"

definition cand_key :: "(pykey \<times> int) list \<Rightarrow> string \<times> int \<Rightarrow> int \<times> pynum \<times> string \<times> int" where
  \<comment> \<open>\<^verbatim>\<open>lambda kv: (-kv[1], -weight_map.get(kv, -inf), kv)\<close>\<close>
  "cand_key weight_map kv =
     (- snd kv, pynum_neg (weight_map_get weight_map (KPair (fst kv) (snd kv)) NegInf), kv)"

definition max_key :: "(pykey \<times> int) list \<Rightarrow> string \<times> int \<Rightarrow> int \<times> pynum" where
  \<comment> \<open>\<^verbatim>\<open>lambda kv: (kv[1], weight_map.get(kv, -inf))\<close>\<close>
  "max_key weight_map kv = (snd kv, weight_map_get weight_map (KPair (fst kv) (snd kv)) NegInf)"

fun py_max_by :: "('a \<Rightarrow> 'k :: linorder) \<Rightarrow> 'a \<Rightarrow> 'a list \<Rightarrow> 'a" where
  \<comment> \<open>\<^verbatim>\<open>max(xs, key=f)\<close> on a non-empty sequence: the first element with the largest key\<close>
  "py_max_by f best [] = best"
| "py_max_by f best (x # xs) = py_max_by f (if f best < f x then x else best) xs"

definition dec_quota :: "string \<Rightarrow> int \<Rightarrow> (string \<times> int) list \<Rightarrow> (string \<times> int) list" where
  \<comment> \<open>\<^verbatim>\<open>quotas[cat] = q - 1\<close>, then \<^verbatim>\<open>if quotas[cat] <= 0: del quotas[cat]\<close>\<close>
  "dec_quota cat q quotas =
     (let quotas' = AList.update cat (q - 1) quotas
      in if q - 1 \<le> 0 then AList.delete cat quotas' else quotas')"

text \<open>
  \<^verbatim>\<open>
  cand = sorted(quotas.items(), key=lambda kv: (-kv[1], -weight_map.get(kv, -inf), kv))
  placed = False
  for cat, q in cand:
      if cat != last and q > 0:
          ...; placed = True; break
  if not placed:
      cat, q = max(quotas.items(), key=lambda kv: (kv[1], weight_map.get(kv, -inf)))
      ...
  \<close>
  Both branches then run the same four statements on the item they chose
  (\<^verbatim>\<open>result.append(cat)\<close>, the decrement, the deletion, \<^verbatim>\<open>last = cat\<close>), so the
  choice is one function and the update follows it in the loop.  The variable
  \<^verbatim>\<open>last\<close> is \<open>last_cat\<close> here, \<open>None\<close> before the first placement.
\<close>

definition pick :: "(pykey \<times> int) list \<Rightarrow> (string \<times> int) list \<Rightarrow> string option \<Rightarrow> string \<times> int" where
  "pick weight_map quotas last_cat =
     (case find (\<lambda>(cat, q). Some cat \<noteq> last_cat \<and> 0 < q) (sort_key (cand_key weight_map) quotas) of
        Some kv \<Rightarrow> kv
      | None \<Rightarrow> py_max_by (max_key weight_map) (hd quotas) (tl quotas))"

function seq_loop :: "nat \<Rightarrow> (pykey \<times> int) list \<Rightarrow> (string \<times> int) list \<Rightarrow> string list \<Rightarrow> string option \<Rightarrow> string list" where
  "seq_loop n_keep weight_map quotas result last_cat =
     (if length result < n_keep \<and> quotas \<noteq> [] then
        (case pick weight_map quotas last_cat of
           (cat, q) \<Rightarrow> seq_loop n_keep weight_map (dec_quota cat q quotas) (result @ [cat]) (Some cat))
      else result)"
  by pat_completeness auto
termination
  by (relation "measure (\<lambda>(n_keep, weight_map, quotas, result, last_cat). n_keep - length result)") auto

text \<open>
  \<^verbatim>\<open>
  def build_weighted_sequence(traveler_type: str, days: int):
      tprefs = ...
      if tprefs.empty:
          return []
      ...
      weight_map = dict(weights)
      n_keep = max(int(days) * 3 - 1, 0)  # 3 slots/day minus 1 buffer
      if n_keep == 0:
          return []
      quotas = proportional_quotas(weights, n_keep)
      quotas = {c: q for c, q in quotas.items() if q > 0}
      result, last = [], None
      while len(result) < n_keep and quotas:
          ...
      return result[:n_keep]
  \<close>
\<close>

definition tprefs :: "pref_row list \<Rightarrow> string \<Rightarrow> pref_row list" where
  \<comment> \<open>the rows of the traveler type, compared in lower case\<close>
  "tprefs PREFS ttype = filter (\<lambda>r. py_lower (traveler_type r) = py_lower ttype) PREFS"

definition build_weighted_sequence :: "pref_row list \<Rightarrow> string \<Rightarrow> int \<Rightarrow> error + string list" where
  "build_weighted_sequence PREFS ttype days =
     (let tprefs = tprefs PREFS ttype in
      if tprefs = [] then Inr []
      else
        let weights = cat_weights tprefs;
            weight_map = dict_of (map (\<lambda>(c, w). (KStr c, w)) weights);
            n_keep = max (days * 3 - 1) 0
        in if n_keep = 0 then Inr []
           else sbind (proportional_quotas weights n_keep)
                  (\<lambda>quotas. let quotas = dict_of (filter (\<lambda>(c, q). 0 < q) quotas)
                            in Inr (py_take n_keep (seq_loop (nat n_keep) weight_map quotas [] None))))"

text \<open>
  \<^verbatim>\<open>
  def sequence_to_days(seq, days):
      per = []
      i = 0
      for _ in range(days):
          per.append(seq[i:i+3])
          i += 3
      return per
  \<close>
\<close>

definition sequence_to_days :: "'a list \<Rightarrow> int \<Rightarrow> 'a list list" where
  "sequence_to_days seq days = map (\<lambda>d. take 3 (drop (3 * d) seq)) [0 ..< nat days]"


subsection \<open>Largest-remainder apportionment, as the specification words it\<close>

text \<open>
  The raw proportional share of a weight, exact (\<open>share\<close>) and as the double the
  code computes (\<open>double_share\<close>); the fractional part the code computes of a
  double (\<open>double_frac\<close>); the remainder left after taking floors; and the
  ranking by which the remainder is handed out: \<open>outranks weights n x y\<close> says
  that category \<open>x\<close> is served before \<open>y\<close>, having the larger computed
  fractional part, or the same one and the later name.
\<close>

definition share :: "int \<Rightarrow> int \<Rightarrow> int \<Rightarrow> rat" where
  "share n T w = of_int (n * w) / of_int T"

definition double_share :: "(string \<times> int) list \<Rightarrow> int \<Rightarrow> int \<Rightarrow> rat" where
  "double_share weights n_total w = round_double (share n_total (sum_list (map snd weights)) w)"

definition double_frac :: "rat \<Rightarrow> rat" where
  "double_frac x = round_double (x - of_int \<lfloor>x\<rfloor>)"

definition outranks :: "(string \<times> int) list \<Rightarrow> int \<Rightarrow> string \<times> int \<Rightarrow> string \<times> int \<Rightarrow> bool" where
  "outranks weights n_total x y =
     (double_frac (double_share weights n_total (snd y)) < double_frac (double_share weights n_total (snd x))
      \<or> (double_frac (double_share weights n_total (snd y)) = double_frac (double_share weights n_total (snd x))
          \<and> fst y < fst x))"

definition floor_remainder :: "(string \<times> int) list \<Rightarrow> int \<Rightarrow> int" where
  "floor_remainder weights n_total =
     n_total - sum_list (map (\<lambda>(c, w). \<lfloor>double_share weights n_total w\<rfloor>) weights)"
subsection \<open>Repeats only when forced, as the specification words it\<close>

text \<open>
  \<open>forced_only quotas last_cat seq\<close> replays a sequence against the quotas it was
  built from: every entry must still have quota left when it is placed, and an
  entry that repeats the one placed just before it is allowed only when every
  category with quota left is that category.  Placing an entry uses up one unit
  of its quota.
\<close>

fun forced_only :: "(string \<times> int) list \<Rightarrow> string option \<Rightarrow> string list \<Rightarrow> bool" where
  "forced_only quotas last_cat [] = True"
| "forced_only quotas last_cat (c # cs) =
     (case map_of quotas c of
        None \<Rightarrow> False
      | Some q \<Rightarrow>
          (if Some c = last_cat then list_all (\<lambda>(k, v). k = c) quotas else True)
          \<and> forced_only (dec_quota c q quotas) (Some c) cs)"

text \<open>
  The preference rows of the specification's end-to-end example (traveler type
  couple with romantic 5, scenic 3, cafes 2), and a table with a single category.
\<close>

definition couple_prefs :: "pref_row list" where
  "couple_prefs =
     [\<lparr>traveler_type = ''couple'', cat_norm = ''romantic'', weight = 5\<rparr>,
      \<lparr>traveler_type = ''couple'', cat_norm = ''scenic'', weight = 3\<rparr>,
      \<lparr>traveler_type = ''couple'', cat_norm = ''cafes'', weight = 2\<rparr>]"

definition solo_prefs :: "pref_row list" where
  "solo_prefs = [\<lparr>traveler_type = ''solo'', cat_norm = ''museums'', weight = 4\<rparr>]"

section \<open>weather.py\<close>

text \<open>
  A forecast is the dictionary \<^verbatim>\<open>daily_forecast\<close> builds for one day, with the keys
  \<^verbatim>\<open>date\<close>, \<^verbatim>\<open>avg_temp_c\<close>, \<^verbatim>\<open>avg_pop\<close> and \<^verbatim>\<open>condition\<close>; a field is \<open>None\<close> when the
  key is absent or holds \<^verbatim>\<open>None\<close>, which is all \<^verbatim>\<open>forecast.get(...) is None\<close> can
  tell.  The argument itself may be \<^verbatim>\<open>None\<close>.  Floats are real numbers.
  \<^verbatim>\<open>
  INDOOR_CATS = {"museums","cafes","shopping_malls","markets","temples","theaters",
                 "cultural_centers","aquariums","science_centers","libraries","art_galleries"}

  def prefer_indoor_if_rain(categories, forecast):
      if not forecast or forecast.get("avg_pop") is None:
          return categories
      rainy = forecast["avg_pop"] >= 0.5
      if not rainy:
          return categories
      indoors = [c for c in categories if c in INDOOR_CATS]
      outdoors = [c for c in categories if c not in INDOOR_CATS]
      mixed = (indoors + outdoors)[:3]
      return mixed + categories[3:]
  \<close>
\<close>

record forecast =
  date :: "string option"
  avg_temp_c :: "real option"
  avg_pop :: "real option"
  condition :: "string option"

definition INDOOR_CATS :: "string set" where
  "INDOOR_CATS = {''museums'', ''cafes'', ''shopping_malls'', ''markets'', ''temples'', ''theaters'',
                  ''cultural_centers'', ''aquariums'', ''science_centers'', ''libraries'', ''art_galleries''}"

definition prefer_indoor_if_rain :: "string list \<Rightarrow> forecast option \<Rightarrow> string list" where
  "prefer_indoor_if_rain categories fc =
     (case fc of
        None \<Rightarrow> categories
      | Some f \<Rightarrow>
          (case avg_pop f of
             None \<Rightarrow> categories
           | Some p \<Rightarrow>
               let rainy = (1 / 2 \<le> p) in
               if \<not> rainy then categories
               else
                 let indoors = filter (\<lambda>c. c \<in> INDOOR_CATS) categories;
                     outdoors = filter (\<lambda>c. c \<notin> INDOOR_CATS) categories;
                     mixed = take 3 (indoors @ outdoors)
                 in mixed @ drop 3 categories))"

section \<open>places.py\<close>

text \<open>
  A candidate is the dictionary \<^verbatim>\<open>places_text_search\<close> builds for one place, with
  the \<^verbatim>\<open>category\<close> that \<^verbatim>\<open>candidates_for_category\<close> adds.  \<^verbatim>\<open>rating\<close> is read with
  \<^verbatim>\<open>x.get("rating", 0)\<close>: the key may be absent, and the value under it is a
  float or \<^verbatim>\<open>None\<close>.  Coordinates are pairs of floats.
\<close>

type_synonym latlng = "rat \<times> rat"

datatype pyval = PyNone | PyNum rat

record candidate =
  name :: string
  rating :: "pyval option"
  user_ratings_total :: int
  address :: "string option"
  place_id :: string
  lat :: rat
  lng :: rat
  types :: "string list"
  category :: string

subsection \<open>The math module\<close>

text \<open>
  \<^verbatim>\<open>from math import radians, sin, cos, sqrt, atan2\<close>.  \<^verbatim>\<open>math.radians(x)\<close> is the
  product \<^verbatim>\<open>x * degToRad\<close> with the double constant \<^verbatim>\<open>pi / 180.0\<close>.  The other four
  functions, and the \<^verbatim>\<open>pow\<close> behind \<^verbatim>\<open>**\<close>, are those of the platform's C library,
  which neither the sources nor IEEE 754 determine: they are a parameter, a
  record of functions from doubles to doubles.  What Python adds is modelled:
  \<^verbatim>\<open>math.sqrt\<close> raises \<^verbatim>\<open>ValueError\<close> on a negative argument, and \<^verbatim>\<open>x ** 2\<close> on a
  float returns \<open>0.0\<close> for \<open>x = 0\<close> and \<open>1.0\<close> for \<open>\<bar>x\<bar> = 1\<close> without calling \<^verbatim>\<open>pow\<close>,
  calls \<^verbatim>\<open>pow(\<bar>x\<bar>, 2.0)\<close> otherwise, and raises \<^verbatim>\<open>OverflowError\<close> when the
  result is not finite.
\<close>

record libm =
  c_sin :: "rat \<Rightarrow> rat"
  c_cos :: "rat \<Rightarrow> rat"
  c_sqrt :: "rat \<Rightarrow> rat"
  c_atan2 :: "rat \<Rightarrow> rat \<Rightarrow> rat"
  c_pow :: "rat \<Rightarrow> rat \<Rightarrow> rat"

definition deg_to_rad :: rat where
  \<comment> \<open>the double \<^verbatim>\<open>0.017453292519943295\<close>\<close>
  "deg_to_rad = 5030569068109113 / 288230376151711744"

definition math_radians :: "rat \<Rightarrow> error + rat" where
  "math_radians x = fmul x deg_to_rad"

definition math_sqrt :: "libm \<Rightarrow> rat \<Rightarrow> error + rat" where
  "math_sqrt m x = (if x < 0 then Inl ValueError else Inr (c_sqrt m x))"

definition float_square :: "libm \<Rightarrow> rat \<Rightarrow> error + rat" where
  \<comment> \<open>\<^verbatim>\<open>x ** 2\<close>\<close>
  "float_square m x =
     (if x = 0 then Inr 0
      else if \<bar>x\<bar> = 1 then Inr 1
      else let r = c_pow m \<bar>x\<bar> 2 in if finite_double r then Inr r else Inl OverflowError)"

subsection \<open>haversine\<close>

text \<open>
  \<^verbatim>\<open>
  def haversine(a, b):
      R = 6371.0
      lat1, lon1 = a; lat2, lon2 = b
      dlat = radians(lat2 - lat1); dlon = radians(lon2 - lon1)
      x = sin(dlat/2)**2 + cos(radians(lat1))*cos(radians(lat2))*sin(dlon/2)**2
      return 2*R*atan2(sqrt(x), sqrt(1 - x))
  \<close>
  The operations are taken in the order Python evaluates them.  \<^verbatim>\<open>2*R\<close> is the
  double \<open>12742\<close>.  Rounding can take \<open>x\<close> above 1, and then \<^verbatim>\<open>sqrt(1 - x)\<close> raises.
\<close>

definition haversine :: "libm \<Rightarrow> latlng \<Rightarrow> latlng \<Rightarrow> error + rat" where
  "haversine m a b =
     (let lat1 = fst a; lon1 = snd a; lat2 = fst b; lon2 = snd b in
      sbind (fsub lat2 lat1) (\<lambda>d1. sbind (math_radians d1) (\<lambda>dlat.
      sbind (fsub lon2 lon1) (\<lambda>d2. sbind (math_radians d2) (\<lambda>dlon.
      sbind (fdiv dlat 2) (\<lambda>hlat. sbind (float_square m (c_sin m hlat)) (\<lambda>s1.
      sbind (math_radians lat1) (\<lambda>r1. sbind (math_radians lat2) (\<lambda>r2.
      sbind (fmul (c_cos m r1) (c_cos m r2)) (\<lambda>cc.
      sbind (fdiv dlon 2) (\<lambda>hlon. sbind (float_square m (c_sin m hlon)) (\<lambda>s2.
      sbind (fmul cc s2) (\<lambda>t.
      sbind (fadd s1 t) (\<lambda>x.
      sbind (math_sqrt m x) (\<lambda>y1.
      sbind (fsub 1 x) (\<lambda>z. sbind (math_sqrt m z) (\<lambda>y2.
      fmul 12742 (c_atan2 m y1 y2))))))))))))))))))"

subsection \<open>nearest_route\<close>

text \<open>
  \<^verbatim>\<open>
  def nearest_route(start_latlng, points):
      route, unused = [], points[:]
      cur = start_latlng
      while unused:
          nxt = min(unused, key=lambda p: haversine(cur, (p["lat"], p["lng"])))
          route.append(nxt)
          cur = (nxt["lat"], nxt["lng"])
          unused.remove(nxt)
      return route
  \<close>
  The elements of \<^verbatim>\<open>points\<close> are subscripted with \<^verbatim>\<open>"lat"\<close> and \<^verbatim>\<open>"lng"\<close>.  The
  assembler passes a list whose elements are themselves lists of candidates, on
  which the subscript raises \<^verbatim>\<open>TypeError\<close>; a point is therefore either a place
  or a list of picks.  \<^verbatim>\<open>min\<close> evaluates the key of every element, in order, and
  returns the first element with the least key.
\<close>

datatype point = Place candidate | Picks "candidate list"

fun coords :: "point \<Rightarrow> error + latlng" where
  \<comment> \<open>\<^verbatim>\<open>(p["lat"], p["lng"])\<close>\<close>
  "coords (Place c) = Inr (lat c, lng c)"
| "coords (Picks ps) = Inl TypeError"

fun py_min_by :: "('a \<Rightarrow> 'k :: linorder) \<Rightarrow> 'a \<Rightarrow> 'a list \<Rightarrow> 'a" where
  \<comment> \<open>\<^verbatim>\<open>min(xs, key=f)\<close> on a non-empty sequence: the first element with the least key\<close>
  "py_min_by f best [] = best"
| "py_min_by f best (x # xs) = py_min_by f (if f x < f best then x else best) xs"

definition dist_key :: "libm \<Rightarrow> latlng \<Rightarrow> point \<Rightarrow> error + rat" where
  \<comment> \<open>\<^verbatim>\<open>lambda p: haversine(cur, (p["lat"], p["lng"]))\<close>\<close>
  "dist_key m cur p = sbind (coords p) (\<lambda>c. haversine m cur c)"

lemma py_min_by_mem: "py_min_by f best xs \<in> set (best # xs)"
  by (induction xs arbitrary: best) auto

lemma nearest_pick_shrinks:
  assumes "snd (py_min_by fst (d, p0) (zip ds rest)) \<noteq> p0"
  shows "length (remove1 (snd (py_min_by fst (d, p0) (zip ds rest))) rest) < length rest"
proof -
  obtain e p where m: "py_min_by fst (d, p0) (zip ds rest) = (e, p)"
    by (cases "py_min_by fst (d, p0) (zip ds rest)")
  have "(e, p) \<in> set ((d, p0) # zip ds rest)"
    using py_min_by_mem [of fst "(d, p0)" "zip ds rest"] by (simp only: m)
  with assms m have "(e, p) \<in> set (zip ds rest)" by auto
  then have "p \<in> set rest" by (rule set_zip_rightD)
  then show ?thesis
    using length_pos_if_in_set [of p rest] by (simp add: m length_remove1)
qed

function nearest_route_loop :: "libm \<Rightarrow> latlng \<Rightarrow> point list \<Rightarrow> point list \<Rightarrow> error + point list" where
  "nearest_route_loop m cur unused route =
     (case unused of
        [] \<Rightarrow> Inr route
      | p0 # rest \<Rightarrow>
          (case mapM (dist_key m cur) unused of
             Inl e \<Rightarrow> Inl e
           | Inr keys \<Rightarrow>
               (case snd (py_min_by fst (hd keys, p0) (zip (tl keys) rest)) of nxt \<Rightarrow>
                  (case coords nxt of
                     Inl e \<Rightarrow> Inl e
                   | Inr c \<Rightarrow> nearest_route_loop m c (remove1 nxt unused) (route @ [nxt])))))"
  by pat_completeness auto
termination
  apply (relation "measure (\<lambda>(m, cur, unused, route). length unused)")
   apply simp
  apply (simp add: nearest_pick_shrinks)
  done

definition nearest_route :: "libm \<Rightarrow> latlng \<Rightarrow> point list \<Rightarrow> error + point list" where
  "nearest_route m start_latlng points = nearest_route_loop m start_latlng points []"

subsection \<open>Nearest-neighbour routes, as the specification words it\<close>

text \<open>
  \<open>distances_defined\<close>: the haversine distance is computed without an exception
  from the reference coordinate to every candidate and between any two
  candidates.  \<open>no_farther cur r p\<close>: seen from \<open>cur\<close>, candidate \<open>r\<close> is at most as
  far as \<open>p\<close>.  \<open>greedy_route cur unused route\<close>: the route visits the unused
  candidates one by one, each time a candidate that is unused and no farther
  from the current position than any other unused candidate, and then continues
  from there with that candidate used up; it ends when no candidate is left.
\<close>

definition returns :: "error + 'a \<Rightarrow> bool" where
  "returns r = (case r of Inl e \<Rightarrow> False | Inr v \<Rightarrow> True)"

definition distances_defined :: "libm \<Rightarrow> latlng \<Rightarrow> candidate list \<Rightarrow> bool" where
  "distances_defined m start_latlng cands =
     list_all (\<lambda>p. returns (haversine m start_latlng (lat p, lng p))
                  \<and> list_all (\<lambda>q. returns (haversine m (lat q, lng q) (lat p, lng p))) cands) cands"

definition no_farther :: "libm \<Rightarrow> latlng \<Rightarrow> candidate \<Rightarrow> candidate \<Rightarrow> bool" where
  "no_farther m cur r p =
     (case (haversine m cur (lat r, lng r), haversine m cur (lat p, lng p)) of
        (Inr dr, Inr dp) \<Rightarrow> dr \<le> dp
      | _ \<Rightarrow> False)"

fun greedy_route :: "libm \<Rightarrow> latlng \<Rightarrow> candidate list \<Rightarrow> candidate list \<Rightarrow> bool" where
  "greedy_route m cur unused [] = (unused = [])"
| "greedy_route m cur unused (r # rs) =
     (r \<in> set unused
      \<and> list_all (no_farther m cur r) unused
      \<and> greedy_route m (lat r, lng r) (remove1 r unused) rs)"

subsection \<open>The C library at the arguments of the examples\<close>

text \<open>
  The values of \<^verbatim>\<open>sin\<close>, \<^verbatim>\<open>cos\<close>, \<^verbatim>\<open>sqrt\<close>, \<^verbatim>\<open>atan2\<close> and \<^verbatim>\<open>pow\<close> in the GNU C library
  (2.39, x86-64) at the arguments that the examples below reach: distances
  between the points \<open>(0, 0)\<close>, \<open>(0, 90)\<close> and \<open>(0, 180)\<close>, and from \<open>(8, 0)\<close> to
  \<open>(- 8, 180)\<close>.  No example reads the table anywhere else, where it holds 0.
\<close>

definition table_value :: "('a \<times> rat) list \<Rightarrow> 'a \<Rightarrow> rat" where
  "table_value t x = (case map_of t x of None \<Rightarrow> 0 | Some v \<Rightarrow> v)"

definition glibc :: libm where
  "glibc =
     \<lparr>c_sin = table_value
        [(- 884279719003555 / 562949953421312, - 1),
         (- 884279719003555 / 1125899906842624, - 1592262918131443 / 2251799813685248),
         (- 5030569068109113 / 36028797018963968, - 5014239404989977 / 36028797018963968),
         (0, 0),
         (884279719003555 / 1125899906842624, 1592262918131443 / 2251799813685248),
         (884279719003555 / 562949953421312, 1)],
      c_cos = table_value
        [(- 5030569068109113 / 36028797018963968, 4459770905381437 / 4503599627370496),
         (0, 1),
         (5030569068109113 / 36028797018963968, 4459770905381437 / 4503599627370496)],
      c_sqrt = table_value
        [(0, 0),
         (4503599627370495 / 9007199254740992, 1592262918131443 / 2251799813685248),
         (4503599627370497 / 9007199254740992, 6369051672525773 / 9007199254740992),
         (1, 1),
         (4503599627370497 / 4503599627370496, 1)],
      c_atan2 = (\<lambda>y x. table_value
        [((0, 1), 0),
         ((1592262918131443 / 2251799813685248, 6369051672525773 / 9007199254740992),
          884279719003555 / 1125899906842624),
         ((1, 0), 884279719003555 / 562949953421312)] (y, x)),
      c_pow = (\<lambda>x y. table_value
        [((5014239404989977 / 36028797018963968, 2), 1395694493897217 / 72057594037927936),
         ((1592262918131443 / 2251799813685248, 2), 4503599627370495 / 9007199254740992)] (x, y))\<rparr>"

definition place_at :: "string \<Rightarrow> rat \<Rightarrow> rat \<Rightarrow> rat \<Rightarrow> candidate" where
  \<comment> \<open>a candidate with the given name, rating and coordinates\<close>
  "place_at nm r la lo =
     \<lparr>name = nm, rating = Some (PyNum r), user_ratings_total = 0, address = None,
      place_id = nm, lat = la, lng = lo, types = [], category = ''sightseeing''\<rparr>"
section \<open>pipeline.py\<close>

subsection \<open>score_candidates\<close>

text \<open>
  \<^verbatim>\<open>
  def score_candidates(start_latlng, items, k=1):
      # Score = 0.6*rating_norm + 0.4*(1 - distance_norm)
      if not items:
          return []
      dists = [haversine(start_latlng, (x["lat"], x["lng"])) for x in items]
      ratings = [x.get("rating", 0) for x in items]
      dmin, dmax = min(dists), max(dists)
      rmin, rmax = min(ratings), max(ratings)
      scored = []
      for x, d, r in zip(items, dists, ratings):
          dn = 0 if dmax == dmin else (d - dmin) / (dmax - dmin)
          rn = 0 if rmax == rmin else (r - rmin) / (rmax - rmin)
          score = 0.6 * rn + 0.4 * (1 - dn)
          scored.append((score, x))
      scored.sort(key=lambda t: t[0], reverse=True)
      return [x for _, x in scored[:k]]
  \<close>
  \<^verbatim>\<open>list.sort\<close> is stable, also with \<^verbatim>\<open>reverse=True\<close>: entries with equal scores
  keep their order.  That is the stable sort by the negated score.  The minimum
  and maximum are taken of non-empty lists, behind the guard.  The distances are
  floats.  A rating is a float or \<^verbatim>\<open>None\<close>, and \<^verbatim>\<open>min\<close> and \<^verbatim>\<open>max\<close> compare the
  ratings from left to right: a comparison with \<^verbatim>\<open>None\<close> raises \<^verbatim>\<open>TypeError\<close>, and
  so does a subtraction.  \<open>0.6\<close> and \<open>0.4\<close> are the doubles nearest to these
  decimals.
\<close>

definition rating_or_zero :: "candidate \<Rightarrow> pyval" where
  \<comment> \<open>\<^verbatim>\<open>x.get("rating", 0)\<close>\<close>
  "rating_or_zero x = (case rating x of None \<Rightarrow> PyNum 0 | Some v \<Rightarrow> v)"

fun pyval_less :: "pyval \<Rightarrow> pyval \<Rightarrow> error + bool" where
  \<comment> \<open>\<^verbatim>\<open>a < b\<close>\<close>
  "pyval_less (PyNum a) (PyNum b) = Inr (a < b)"
| "pyval_less PyNone b = Inl TypeError"
| "pyval_less (PyNum a) PyNone = Inl TypeError"

fun min_vals :: "pyval \<Rightarrow> pyval list \<Rightarrow> error + pyval" where
  \<comment> \<open>\<^verbatim>\<open>min\<close> of a non-empty list, its first element apart: a later item replaces the best when it is less\<close>
  "min_vals best [] = Inr best"
| "min_vals best (x # xs) = sbind (pyval_less x best) (\<lambda>lt. min_vals (if lt then x else best) xs)"

fun max_vals :: "pyval \<Rightarrow> pyval list \<Rightarrow> error + pyval" where
  \<comment> \<open>\<^verbatim>\<open>max\<close>: a later item replaces the best when it is greater\<close>
  "max_vals best [] = Inr best"
| "max_vals best (x # xs) = sbind (pyval_less best x) (\<lambda>gt. max_vals (if gt then x else best) xs)"

fun pyval_sub :: "pyval \<Rightarrow> pyval \<Rightarrow> error + rat" where
  \<comment> \<open>\<^verbatim>\<open>a - b\<close>\<close>
  "pyval_sub (PyNum a) (PyNum b) = fsub a b"
| "pyval_sub PyNone b = Inl TypeError"
| "pyval_sub (PyNum a) PyNone = Inl TypeError"

definition d06 :: rat where
  \<comment> \<open>the double \<^verbatim>\<open>0.6\<close>\<close>
  "d06 = 5404319552844595 / 9007199254740992"

definition d04 :: rat where
  \<comment> \<open>the double \<^verbatim>\<open>0.4\<close>\<close>
  "d04 = 3602879701896397 / 9007199254740992"

definition distance_term :: "rat \<Rightarrow> rat \<Rightarrow> rat \<Rightarrow> error + rat" where
  \<comment> \<open>\<^verbatim>\<open>0 if dmax == dmin else (d - dmin) / (dmax - dmin)\<close>\<close>
  "distance_term d dmin dmax =
     (if dmax = dmin then Inr 0
      else sbind (fsub d dmin) (\<lambda>a. sbind (fsub dmax dmin) (\<lambda>b. fdiv a b)))"

definition rating_term :: "pyval \<Rightarrow> pyval \<Rightarrow> pyval \<Rightarrow> error + rat" where
  \<comment> \<open>\<^verbatim>\<open>0 if rmax == rmin else (r - rmin) / (rmax - rmin)\<close>\<close>
  "rating_term r rmin rmax =
     (if rmax = rmin then Inr 0
      else sbind (pyval_sub r rmin) (\<lambda>a. sbind (pyval_sub rmax rmin) (\<lambda>b. fdiv a b)))"

definition blend :: "rat \<Rightarrow> rat \<Rightarrow> error + rat" where
  \<comment> \<open>\<^verbatim>\<open>0.6 * rn + 0.4 * (1 - dn)\<close>\<close>
  "blend rn dn =
     sbind (fmul d06 rn) (\<lambda>a. sbind (fsub 1 dn) (\<lambda>b. sbind (fmul d04 b) (\<lambda>c. fadd a c)))"

definition scored :: "libm \<Rightarrow> latlng \<Rightarrow> candidate list \<Rightarrow> error + (rat \<times> candidate) list" where
  "scored m start_latlng items =
     sbind (mapM (\<lambda>x. haversine m start_latlng (lat x, lng x)) items)
       (\<lambda>dists.
          let ratings = map rating_or_zero items;
              dmin = Min (set dists); dmax = Max (set dists)
          in sbind (min_vals (hd ratings) (tl ratings))
               (\<lambda>rmin. sbind (max_vals (hd ratings) (tl ratings))
                 (\<lambda>rmax.
                    mapM (\<lambda>(x, d, r).
                            sbind (distance_term d dmin dmax)
                              (\<lambda>dn. sbind (rating_term r rmin rmax)
                                (\<lambda>rn. sbind (blend rn dn) (\<lambda>score. Inr (score, x)))))
                      (zip items (zip dists ratings)))))"

definition score_candidates :: "libm \<Rightarrow> latlng \<Rightarrow> candidate list \<Rightarrow> int \<Rightarrow> error + candidate list" where
  "score_candidates m start_latlng items k =
     (if items = [] then Inr []
      else sbind (scored m start_latlng items)
             (\<lambda>sc. Inr (map snd (py_take k (sort_key (\<lambda>t. - fst t) sc)))))"

subsection \<open>generate_itinerary\<close>

text \<open>
  The collaborators that perform network requests are parameters, as is the C
  library: the table
  \<^verbatim>\<open>PREFS\<close>, \<^verbatim>\<open>geocode_city\<close>, \<^verbatim>\<open>daily_forecast\<close>, \<^verbatim>\<open>candidates_for_category\<close> (called
  as \<^verbatim>\<open>candidates_for_category(latlng, latlng[1], c, max_results=10)\<close>, so its
  first argument is the coordinate pair) and \<^verbatim>\<open>groq_refine\<close>.  Each may raise.
  \<^verbatim>\<open>
  def generate_itinerary(traveler_type, destination, days, start_date=None,
                         stay_latlng=None, use_groq=False):
      latlng = stay_latlng or geocode_city(destination)
      if not latlng:
          raise ValueError("Could not geocode destination")
      seq = build_weighted_sequence(traveler_type, days)
      per_day_categories = sequence_to_days(seq, days)
      forecasts = daily_forecast(latlng[0], latlng[1], days)
      plan = []
      for i, cats in enumerate(per_day_categories):
          cats = [c for c in cats if c]
          fcast = forecasts[i] if i < len(forecasts) else None
          cats = prefer_indoor_if_rain(cats, fcast)
          day_shortlists = []
          for c in cats:
              cand = candidates_for_category(latlng, latlng[1], c, max_results=10)
              picks = score_candidates(latlng, cand, k=3)  # shortlist
              if picks:
                  day_shortlists.append({"category": c, "picks": picks})
          chosen = [sl["picks"] for sl in day_shortlists if sl["picks"]]
          route = nearest_route(latlng, chosen)
          slots = []
          for part, place in zip(["Morning","Afternoon","Evening"], route):
              slots.append({"part": part, "place": place})
          plan.append({
              "date": forecasts[i]["date"] if i < len(forecasts) and "date" in forecasts[i] else None,
              "weather": fcast,
              "categories": cats,
              "slots": slots,
              "alternatives": [{"category": sl["category"], "alts": sl["picks"][1:3]}
                               for sl in day_shortlists]
          })
      groq_notes = None
      if use_groq:
          try:
              groq_notes = groq_refine(destination, latlng, traveler_type, plan)
          except Exception:
              groq_notes = None
      return {"destination": destination, "latlng": {"lat": latlng[0], "lng": latlng[1]},
              "traveler_type": traveler_type, "plan": plan, "llm_notes": groq_notes}
  \<close>
  The keys of the returned dictionaries are record fields, prefixed (\<open>sl_\<close>,
  \<open>plan_\<close>, \<open>it_\<close>) where the bare name is used elsewhere.
  \<^verbatim>\<open>chosen\<close> collects \<^verbatim>\<open>sl["picks"]\<close>, the whole list of picks of each shortlist, so
  the points handed to \<^verbatim>\<open>nearest_route\<close> are lists of candidates.
\<close>

record shortlist =
  sl_category :: string
  sl_picks :: "candidate list"

record slot =
  part :: string
  place :: point

record alternative =
  alt_category :: string
  alts :: "candidate list"

record day_plan =
  plan_date :: "string option"
  plan_weather :: "forecast option"
  plan_categories :: "string list"
  plan_slots :: "slot list"
  plan_alternatives :: "alternative list"

record itinerary =
  it_destination :: string
  it_latlng :: latlng
  it_traveler_type :: string
  it_plan :: "day_plan list"
  it_llm_notes :: "string option"

record collaborators =
  prefs_table :: "pref_row list"
  geocode_city :: "string \<Rightarrow> error + latlng option"
  daily_forecast :: "rat \<Rightarrow> rat \<Rightarrow> int \<Rightarrow> error + forecast list"
  candidates_for_category :: "latlng \<Rightarrow> rat \<Rightarrow> string \<Rightarrow> int \<Rightarrow> error + candidate list"
  groq_refine :: "string \<Rightarrow> latlng \<Rightarrow> string \<Rightarrow> day_plan list \<Rightarrow> error + string option"

definition day_shortlists :: "libm \<Rightarrow> collaborators \<Rightarrow> latlng \<Rightarrow> string list \<Rightarrow> error + shortlist list" where
  \<comment> \<open>the inner \<^verbatim>\<open>for c in cats\<close> loop\<close>
  "day_shortlists m env ll cats =
     sbind (mapM (\<lambda>c. sbind (candidates_for_category env ll (snd ll) c 10)
                          (\<lambda>cand. sbind (score_candidates m ll cand 3)
                             (\<lambda>picks. Inr \<lparr>sl_category = c, sl_picks = picks\<rparr>))) cats)
       (\<lambda>sls. Inr (filter (\<lambda>sl. sl_picks sl \<noteq> []) sls))"

definition day_entry :: "libm \<Rightarrow> collaborators \<Rightarrow> latlng \<Rightarrow> forecast list \<Rightarrow> nat \<times> string list \<Rightarrow> error + day_plan" where
  \<comment> \<open>one iteration of \<^verbatim>\<open>for i, cats in enumerate(per_day_categories)\<close>\<close>
  "day_entry m env ll forecasts icats =
     (let i = fst icats;
          cats = filter (\<lambda>c. c \<noteq> []) (snd icats);
          fcast = (if i < length forecasts then Some (forecasts ! i) else None);
          cats = prefer_indoor_if_rain cats fcast
      in sbind (day_shortlists m env ll cats)
           (\<lambda>sls. let chosen = map (\<lambda>sl. Picks (sl_picks sl)) (filter (\<lambda>sl. sl_picks sl \<noteq> []) sls)
                   in sbind (nearest_route m ll chosen)
                        (\<lambda>route. Inr
                           \<lparr>plan_date = (if i < length forecasts then date (forecasts ! i) else None),
                            plan_weather = fcast,
                            plan_categories = cats,
                            plan_slots = map (\<lambda>(pt, pl). \<lparr>part = pt, place = pl\<rparr>)
                                      (zip [''Morning'', ''Afternoon'', ''Evening''] route),
                            plan_alternatives = map (\<lambda>sl. \<lparr>alt_category = sl_category sl,
                                                        alts = take 2 (drop 1 (sl_picks sl))\<rparr>) sls\<rparr>)))"

definition generate_itinerary ::
  "libm \<Rightarrow> collaborators \<Rightarrow> string \<Rightarrow> string \<Rightarrow> int \<Rightarrow> latlng option \<Rightarrow> bool \<Rightarrow> error + itinerary" where
  "generate_itinerary m env ttype dest days stay_latlng use_groq =
     sbind (case stay_latlng of Some ll \<Rightarrow> Inr (Some ll) | None \<Rightarrow> geocode_city env dest)
       (\<lambda>found. case found of
          None \<Rightarrow> Inl ValueError
        | Some ll \<Rightarrow>
            sbind (build_weighted_sequence (prefs_table env) ttype days)
              (\<lambda>seq. let per_day_categories = sequence_to_days seq days in
                 sbind (daily_forecast env (fst ll) (snd ll) days)
                   (\<lambda>forecasts.
                      sbind (mapM (day_entry m env ll forecasts)
                               (zip [0 ..< length per_day_categories] per_day_categories))
                        (\<lambda>plan_rows.
                           let groq_notes =
                                 (if use_groq
                                  then (case groq_refine env dest ll ttype plan_rows of
                                          Inl e \<Rightarrow> None
                                        | Inr notes \<Rightarrow> notes)
                                  else None)
                           in Inr \<lparr>it_destination = dest, it_latlng = ll, it_traveler_type = ttype,
                                   it_plan = plan_rows, it_llm_notes = groq_notes\<rparr>))))"


subsection \<open>Min-max normalisation, as the specification words it\<close>

text \<open>
  The normalised value of \<open>v\<close> among the values \<open>vs\<close>: 0 when all values are the
  same, else its position between the least and the greatest, the two
  differences and their quotient each rounded to a double.  \<open>rating_norm\<close> and
  \<open>distance_norm\<close> normalise a candidate's rating (0 when it has none) and its
  haversine distance from the reference coordinate among the candidates given.
  \<open>double_score\<close> is \<open>0.6 * rn + 0.4 * (1 - dn)\<close> in double arithmetic.
\<close>

definition minmax_norm :: "rat list \<Rightarrow> rat \<Rightarrow> rat" where
  "minmax_norm vs v =
     (if Max (set vs) = Min (set vs) then 0
      else round_double (round_double (v - Min (set vs)) / round_double (Max (set vs) - Min (set vs))))"

definition rating_of :: "candidate \<Rightarrow> rat" where
  "rating_of x = (case rating_or_zero x of PyNone \<Rightarrow> 0 | PyNum r \<Rightarrow> r)"

definition distance_of :: "libm \<Rightarrow> latlng \<Rightarrow> candidate \<Rightarrow> rat" where
  "distance_of m start_latlng x =
     (case haversine m start_latlng (lat x, lng x) of Inl e \<Rightarrow> 0 | Inr d \<Rightarrow> d)"

definition rating_norm :: "candidate list \<Rightarrow> candidate \<Rightarrow> rat" where
  "rating_norm items x = minmax_norm (map rating_of items) (rating_of x)"

definition distance_norm :: "libm \<Rightarrow> latlng \<Rightarrow> candidate list \<Rightarrow> candidate \<Rightarrow> rat" where
  "distance_norm m start_latlng items x =
     minmax_norm (map (distance_of m start_latlng) items) (distance_of m start_latlng x)"

definition double_score :: "rat \<Rightarrow> rat \<Rightarrow> rat" where
  "double_score rn dn =
     round_double (round_double (d06 * rn) + round_double (d04 * round_double (1 - dn)))"
subsection \<open>Two sets of collaborators\<close>

text \<open>
  The example table, a destination given by its coordinates, no forecast, and a
  places search that finds nothing for any category; and the same with a search
  that finds one cafe for every category.
\<close>

definition no_places :: collaborators where
  "no_places =
     \<lparr>prefs_table = couple_prefs,
      geocode_city = (\<lambda>place. Inr None),
      daily_forecast = (\<lambda>la lo days. Inr []),
      candidates_for_category = (\<lambda>la lo cat max_results. Inr []),
      groq_refine = (\<lambda>dest ll ttype days_data. Inr None)\<rparr>"

definition a_cafe :: candidate where
  "a_cafe = \<lparr>name = ''Cafe Central'', rating = Some (PyNum 4), user_ratings_total = 120, address = None,
             place_id = ''p1'', lat = 0, lng = 0, types = [''Cafe''], category = ''cafes''\<rparr>"

definition one_place :: collaborators where
  "one_place = no_places\<lparr>candidates_for_category := (\<lambda>la lo cat max_results. Inr [a_cafe])\<rparr>"


text \<open>
  Three places on the equator, a quarter and half of the way round from the
  first, and a place almost opposite to \<open>(8, 0)\<close>.
\<close>

definition p_origin :: candidate where
  "p_origin = place_at ''Origin Cafe'' 4 0 0"

definition p_quarter :: candidate where
  "p_quarter = place_at ''Quarter Park'' (7 / 2) 0 90"

definition p_half :: candidate where
  "p_half = place_at ''Half Museum'' 5 0 180"

definition p_antipode :: candidate where
  "p_antipode = place_at ''Antipode Point'' 4 (- 8) 180"
section \<open>Properties of the rounding\<close>

subsection \<open>Rounding to an integer\<close>

lemma round_half_even_cases:
  "round_half_even x = \<lfloor>x\<rfloor> \<or> round_half_even x = \<lfloor>x\<rfloor> + 1"
  by (simp add: round_half_even_def Let_def)

lemma round_half_even_error: "\<bar>of_int (round_half_even x) - x\<bar> \<le> 1 / 2"
proof -
  have b: "of_int \<lfloor>x\<rfloor> \<le> x" "x < of_int \<lfloor>x\<rfloor> + 1" by linarith+
  show ?thesis
  proof (cases "x - of_int \<lfloor>x\<rfloor> < 1 / 2")
    case True
    then have "round_half_even x = \<lfloor>x\<rfloor>" by (simp add: round_half_even_def Let_def)
    then show ?thesis using True b by (simp add: abs_le_iff)
  next
    case False
    show ?thesis
    proof (cases "1 / 2 < x - of_int \<lfloor>x\<rfloor>")
      case True
      then have "round_half_even x = \<lfloor>x\<rfloor> + 1" using False by (simp add: round_half_even_def Let_def)
      then show ?thesis using True b by (simp add: abs_le_iff)
    next
      case F2: False
      with False have h: "x - of_int \<lfloor>x\<rfloor> = 1 / 2" by simp
      from round_half_even_cases [of x] show ?thesis
      proof
        assume "round_half_even x = \<lfloor>x\<rfloor>" then show ?thesis using h by (simp add: abs_le_iff)
      next
        assume "round_half_even x = \<lfloor>x\<rfloor> + 1" then show ?thesis using h by (simp add: abs_le_iff)
      qed
    qed
  qed
qed

lemma round_half_even_of_int [simp]: "round_half_even (of_int k) = k"
  by (simp add: round_half_even_def)

lemma round_half_even_ge: "of_int a \<le> x \<Longrightarrow> a \<le> round_half_even x"
proof -
  assume "of_int a \<le> x"
  then have "a \<le> \<lfloor>x\<rfloor>" by (simp add: le_floor_iff)
  then show ?thesis using round_half_even_cases [of x] by linarith
qed

lemma round_half_even_le: "x \<le> of_int b \<Longrightarrow> round_half_even x \<le> b"
proof (cases "x = of_int b")
  case True then show ?thesis by simp
next
  case False
  assume "x \<le> of_int b"
  with False have "x < of_int b" by simp
  then have "\<lfloor>x\<rfloor> < b" by (simp add: floor_less_iff)
  then show ?thesis using round_half_even_cases [of x] by linarith
qed

lemma round_half_even_mono: "x \<le> y \<Longrightarrow> round_half_even x \<le> round_half_even y"
proof -
  assume xy: "x \<le> y"
  then have f: "\<lfloor>x\<rfloor> \<le> \<lfloor>y\<rfloor>" by (rule floor_mono)
  show ?thesis
  proof (cases "\<lfloor>x\<rfloor> = \<lfloor>y\<rfloor>")
    case True
    have r: "x - of_int \<lfloor>y\<rfloor> \<le> y - of_int \<lfloor>y\<rfloor>" using xy by simp
    show ?thesis
      unfolding round_half_even_def Let_def True using r by (simp split: if_splits)
  next
    case False
    with f have "\<lfloor>x\<rfloor> + 1 \<le> \<lfloor>y\<rfloor>" by simp
    then show ?thesis using round_half_even_cases [of x] round_half_even_cases [of y] by linarith
  qed
qed

subsection \<open>The exponent\<close>

lemma bitlen_rat_bounds:
  assumes "0 < a"
  shows "(2::rat) powi (bitlen a - 1) \<le> of_int a" and "of_int a < (2::rat) powi bitlen a"
proof -
  have b1: "1 \<le> bitlen a" using assms bitlen_eq_zero_iff [of a] bitlen_nonneg [of a] by linarith
  from bitlen_bounds [OF assms] have lo: "2 ^ nat (bitlen a - 1) \<le> a" and hi: "a < 2 ^ nat (bitlen a)"
    by simp_all
  have "(2::rat) powi (bitlen a - 1) = 2 ^ nat (bitlen a - 1)" using b1 by (simp add: power_int_def)
  also have "\<dots> = of_int (2 ^ nat (bitlen a - 1))" by simp
  also have "\<dots> \<le> of_int a" using lo by (simp only: of_int_le_iff)
  finally show "(2::rat) powi (bitlen a - 1) \<le> of_int a" .
  have "(of_int a :: rat) < of_int (2 ^ nat (bitlen a))" using hi by (simp only: of_int_less_iff)
  also have "\<dots> = 2 ^ nat (bitlen a)" by simp
  also have "\<dots> = (2::rat) powi bitlen a" using b1 by (simp add: power_int_def)
  finally show "of_int a < (2::rat) powi bitlen a" .
qed

lemma exponent_bounds:
  assumes "q \<noteq> 0"
  shows "2 powi exponent_of q \<le> \<bar>q\<bar>" and "\<bar>q\<bar> < 2 powi (exponent_of q + 1)"
proof -
  obtain a b where ab: "quotient_of \<bar>q\<bar> = (a, b)" by (cases "quotient_of \<bar>q\<bar>")
  have bpos: "0 < b" using ab by (rule quotient_of_denom_pos)
  have q: "\<bar>q\<bar> = of_int a / of_int b" using ab by (rule quotient_of_div)
  have "0 < \<bar>q\<bar>" using assms by simp
  then have apos: "0 < a" using q bpos by (simp add: zero_less_divide_iff)
  let ?d = "bitlen a - bitlen b"
  note A = bitlen_rat_bounds [OF apos] and B = bitlen_rat_bounds [OF bpos]
  have e: "exponent_of q = (if 2 powi ?d \<le> \<bar>q\<bar> then ?d else ?d - 1)"
    by (simp add: exponent_of_def ab Let_def)
  have bq: "(0::rat) < of_int b" using bpos by simp
  have low: "2 powi (?d - 1) \<le> \<bar>q\<bar>"
  proof -
    have "?d - 1 = (bitlen a - 1) - bitlen b" by simp
    then have "(2::rat) powi (?d - 1) = 2 powi (bitlen a - 1) / 2 powi bitlen b"
      by (simp only: power_int_diff [of "2::rat", simplified])
    also have "\<dots> \<le> of_int a / 2 powi bitlen b"
      using A(1) by (simp add: divide_right_mono)
    also have "\<dots> \<le> of_int a / of_int b"
      using B(2) apos bq by (intro divide_left_mono) (simp_all add: less_imp_le)
    finally show ?thesis by (simp only: q)
  qed
  have up: "\<bar>q\<bar> < 2 powi (?d + 1)"
  proof -
    have p: "(0::rat) < 2 powi (bitlen b - 1)" by simp
    have "(0::rat) < of_int b * 2 powi (bitlen b - 1)" using bq p by (rule mult_pos_pos)
    then have "of_int a / of_int b \<le> of_int a / (2::rat) powi (bitlen b - 1)"
      using B(1) apos by (intro divide_left_mono) (simp_all add: less_imp_le)
    also have "\<dots> < 2 powi bitlen a / 2 powi (bitlen b - 1)"
      using A(2) p by (simp add: divide_strict_right_mono)
    also have "\<dots> = 2 powi (bitlen a - (bitlen b - 1))"
      by (simp only: power_int_diff [of "2::rat", simplified])
    also have "bitlen a - (bitlen b - 1) = ?d + 1" by simp
    finally show ?thesis by (simp only: q)
  qed
  show "2 powi exponent_of q \<le> \<bar>q\<bar>" using low by (simp add: e)
  show "\<bar>q\<bar> < 2 powi (exponent_of q + 1)" using up by (auto simp: e)
qed

subsection \<open>Rounding to a double\<close>

lemma two_powi_less_exp: "(2::rat) powi m \<le> x \<Longrightarrow> x < 2 powi n \<Longrightarrow> m < n"
proof (rule ccontr)
  assume a: "(2::rat) powi m \<le> x" "x < 2 powi n" and "\<not> m < n"
  then have "n \<le> m" by simp
  then have "(2::rat) powi n \<le> 2 powi m" by (rule power_int_increasing) simp
  with a show False by simp
qed

lemma ulp_pos: "0 < ulp_of q"
  by (simp add: ulp_of_def)

lemma round_double_nonneg: "0 \<le> z \<Longrightarrow> 0 \<le> round_double z"
proof -
  assume z: "0 \<le> z"
  have "0 \<le> z / ulp_of z" using z ulp_pos [of z] by simp
  then have "0 \<le> round_half_even (z / ulp_of z)"
    using round_half_even_ge [of 0 "z / ulp_of z"] by simp
  then show ?thesis using ulp_pos [of z] by (simp add: round_double_def)
qed

text \<open>Below \<open>2 ^ 53\<close> the integers are multiples of the spacing.\<close>

lemma ulp_divides_one:
  assumes "z \<noteq> 0" and "\<bar>z\<bar> < 2 ^ 53"
  obtains N :: int where "0 < N" and "ulp_of z * of_int N = 1"
    and "N = 2 ^ nat (52 - max (exponent_of z) (- 1022))"
    and "max (exponent_of z) (- 1022) \<le> 52"
proof -
  let ?e = "max (exponent_of z) (- 1022)"
  have "(2::rat) powi exponent_of z \<le> \<bar>z\<bar>" using assms(1) by (rule exponent_bounds)
  moreover have "\<bar>z\<bar> < (2::rat) powi 53" using assms(2) by simp
  ultimately have "exponent_of z < 53" by (rule two_powi_less_exp)
  then have e: "?e \<le> 52" by simp
  let ?N = "2 ^ nat (52 - ?e) :: int"
  have "ulp_of z * of_int ?N = 2 powi (?e - 52) * 2 powi (52 - ?e)"
    using e by (simp add: ulp_of_def power_int_def)
  also have "\<dots> = 2 powi ((?e - 52) + (52 - ?e))"
    by (rule power_int_add [symmetric]) simp
  also have "\<dots> = 1" by simp
  finally have "ulp_of z * of_int ?N = 1" .
  moreover have "0 < ?N" by simp
  ultimately show ?thesis using that e by blast
qed

lemma round_double_le_int:
  assumes "0 \<le> z" and "z \<le> of_int k" and "k < 2 ^ 53"
  shows "round_double z \<le> of_int k"
proof (cases "z = 0")
  case True
  then show ?thesis using assms by (simp add: round_double_def)
next
  case False
  have "\<bar>z\<bar> \<le> of_int k" using assms by simp
  also have "(of_int k :: rat) < of_int (2 ^ 53)" using assms(3) by (simp only: of_int_less_iff)
  finally have "\<bar>z\<bar> < 2 ^ 53" by simp
  from ulp_divides_one [OF False this] obtain N :: int where N: "0 < N" "ulp_of z * of_int N = 1"
    by blast
  have u: "ulp_of z = 1 / of_int N" using N by (simp add: field_simps)
  have "z / ulp_of z \<le> of_int (k * N)" using assms(2) N(1) by (simp add: u mult_right_mono)
  then have "round_half_even (z / ulp_of z) \<le> k * N" by (rule round_half_even_le)
  then have "(of_int (round_half_even (z / ulp_of z)) :: rat) \<le> of_int (k * N)"
    by (simp only: of_int_le_iff)
  then have "of_int (round_half_even (z / ulp_of z)) * ulp_of z \<le> of_int (k * N) * ulp_of z"
    using ulp_pos [of z] by (simp add: mult_right_mono)
  also have "\<dots> = of_int k" using N by (simp add: u)
  finally show ?thesis using False by (simp add: round_double_def)
qed

lemma round_double_ge_int:
  assumes "0 \<le> k" and "of_int k \<le> z" and "z < 2 ^ 53"
  shows "of_int k \<le> round_double z"
proof (cases "z = 0")
  case True
  then show ?thesis using assms by (simp add: round_double_def)
next
  case False
  have "(0::rat) \<le> of_int k" using assms(1) by simp
  then have "0 \<le> z" using assms(2) by linarith
  then have "\<bar>z\<bar> < 2 ^ 53" using assms(3) by simp
  from ulp_divides_one [OF False this] obtain N :: int where N: "0 < N" "ulp_of z * of_int N = 1"
    by blast
  have u: "ulp_of z = 1 / of_int N" using N by (simp add: field_simps)
  have "of_int (k * N) \<le> z / ulp_of z" using assms(2) N(1) by (simp add: u mult_right_mono)
  then have "k * N \<le> round_half_even (z / ulp_of z)" by (rule round_half_even_ge)
  then have "(of_int (k * N) :: rat) \<le> of_int (round_half_even (z / ulp_of z))"
    by (simp only: of_int_le_iff)
  then have "of_int (k * N) * ulp_of z \<le> of_int (round_half_even (z / ulp_of z)) * ulp_of z"
    using ulp_pos [of z] by (simp add: mult_right_mono)
  moreover have "of_int (k * N) * ulp_of z = of_int k" using N by (simp add: u)
  ultimately have "of_int k \<le> of_int (round_half_even (z / ulp_of z)) * ulp_of z"
    by (simp only:)
  then show ?thesis using False by (simp add: round_double_def)
qed

lemma round_double_int:
  assumes "0 \<le> k" and "k < 2 ^ 53"
  shows "round_double (of_int k) = of_int k"
proof -
  have "(of_int k :: rat) < of_int (2 ^ 53)" using assms(2) by (simp only: of_int_less_iff)
  then have "(of_int k :: rat) < 2 ^ 53" by simp
  then have "of_int k \<le> round_double (of_int k)"
    using assms(1) by (intro round_double_ge_int) simp_all
  moreover have "round_double (of_int k) \<le> of_int k"
    using assms by (intro round_double_le_int) simp_all
  ultimately show ?thesis by simp
qed

text \<open>
  The quotient of two integers below \<open>2 ^ 53\<close> is rounded to a double with the same
  integer part: rounding up to the next integer would need a divisor of at least
  twice the number of doubles per unit, and then a dividend of at least \<open>2 ^ 53\<close>.
\<close>

lemma round_double_quotient:
  assumes a: "0 \<le> a" "a < 2 ^ 53" and b: "0 < b" "b < 2 ^ 53"
  shows "of_int (a div b) \<le> round_double (of_int a / of_int b)"
    and "round_double (of_int a / of_int b) < of_int (a div b) + 1"
proof -
  let ?q = "of_int a / of_int b :: rat"
  let ?k = "a div b"
  have bq: "(0::rat) < of_int b" using b(1) by simp
  have k0: "0 \<le> ?k" using a(1) b(1) by (simp add: pos_imp_zdiv_nonneg_iff)
  have "0 \<le> a mod b" using b(1) by simp
  then have "?k * b \<le> a" using div_mult_mod_eq [of a b] by linarith
  then have "(of_int (?k * b) :: rat) \<le> of_int a" by (simp only: of_int_le_iff)
  then have kq: "of_int ?k \<le> ?q" using bq by (simp add: pos_le_divide_eq)
  have "?q \<le> of_int a" using a(1) b(1) by (simp add: pos_divide_le_eq mult_le_cancel_left1)
  also have "(of_int a :: rat) < of_int (2 ^ 53)" using a(2) by (simp only: of_int_less_iff)
  finally have q53: "?q < 2 ^ 53" by simp
  show "of_int ?k \<le> round_double ?q" using k0 kq q53 by (rule round_double_ge_int)
  have "a mod b < b" using b(1) by simp
  moreover have "(?k + 1) * b = ?k * b + b" by (simp add: algebra_simps)
  ultimately have "a + 1 \<le> (?k + 1) * b"
    using div_mult_mod_eq [of a b] by linarith
  then have "(of_int (a + 1) :: rat) \<le> of_int ((?k + 1) * b)" by (simp only: of_int_le_iff)
  then have gap: "?q + 1 / of_int b \<le> of_int ?k + 1"
    using bq by (simp add: field_simps)
  show "round_double ?q < of_int ?k + 1"
  proof (cases "a = 0")
    case True
    then show ?thesis by (simp add: round_double_def)
  next
    case False
    then have apos: "0 < a" using a(1) by simp
    then have qpos: "0 < ?q" using bq by simp
    have qne: "?q \<noteq> 0" using apos b(1) by simp
    have "\<bar>?q\<bar> < 2 ^ 53" using q53 qpos by simp
    from ulp_divides_one [OF qne this] obtain N :: int where
      N: "0 < N" "ulp_of ?q * of_int N = 1" "N = 2 ^ nat (52 - max (exponent_of ?q) (- 1022))"
        "max (exponent_of ?q) (- 1022) \<le> 52"
      by blast
    have u: "ulp_of ?q = 1 / of_int N" using N(1,2) by (simp add: field_simps)
    let ?m = "round_half_even (?q / ulp_of ?q)"
    have qu: "?q / ulp_of ?q = ?q * of_int N" by (simp add: u)
    have "?m < (?k + 1) * N"
    proof (rule ccontr)
      assume "\<not> ?m < (?k + 1) * N"
      then have "(?k + 1) * N \<le> ?m" by simp
      then have "(of_int ((?k + 1) * N) :: rat) \<le> of_int ?m" by (simp only: of_int_le_iff)
      moreover have "of_int ?m - ?q * of_int N \<le> 1 / 2"
      proof -
        have "\<bar>of_int ?m - ?q / ulp_of ?q\<bar> \<le> 1 / 2" by (rule round_half_even_error)
        then have "of_int ?m - ?q / ulp_of ?q \<le> 1 / 2" by linarith
        then show ?thesis by (simp only: qu)
      qed
      ultimately have "(of_int ?k + 1 - ?q) * of_int N \<le> 1 / 2"
        by (simp add: algebra_simps)
      moreover have "1 / of_int b * of_int N \<le> (of_int ?k + 1 - ?q) * (of_int N :: rat)"
        using gap N(1) by (intro mult_right_mono) simp_all
      ultimately have "1 / of_int b * (of_int N :: rat) \<le> 1 / 2" by (rule order_trans [rotated])
      then have "(of_int N :: rat) / of_int b \<le> 1 / 2" by simp
      then have nb: "2 * (of_int N :: rat) \<le> of_int b" using bq by (simp add: field_simps)
      have "1 \<le> a" using apos by simp
      then have "(1::rat) \<le> of_int a" by (metis of_int_1_le_iff)
      have "(of_int b :: rat) < of_int (2 ^ 53)" using b(2) by (simp only: of_int_less_iff)
      then have "(of_int b :: rat) < 2 powi 53" by simp
      then have "(2::rat) powi (- 53) < 1 / of_int b"
        using bq by (simp add: power_int_minus field_simps)
      also have "\<dots> \<le> ?q" using \<open>(1::rat) \<le> of_int a\<close> bq by (simp add: divide_right_mono)
      finally have "(2::rat) powi (- 53) \<le> ?q" by (rule less_imp_le)
      moreover have "\<bar>?q\<bar> = ?q" using qpos by (simp only: abs_of_pos)
      ultimately have "(2::rat) powi (- 53) \<le> \<bar>?q\<bar>" by (simp only:)
      moreover have "\<bar>?q\<bar> < 2 powi (exponent_of ?q + 1)" using qne by (rule exponent_bounds)
      ultimately have "- 53 < exponent_of ?q + 1" by (rule two_powi_less_exp)
      then have e: "max (exponent_of ?q) (- 1022) = exponent_of ?q" by simp
      have e52: "exponent_of ?q \<le> 52" using N(4) e by simp
      have Nq: "(of_int N :: rat) = 2 powi (52 - exponent_of ?q)"
        using e52 by (simp add: N(3) e power_int_def)
      have "(2::rat) powi exponent_of ?q \<le> ?q" using exponent_bounds(1) [OF qne] qpos by simp
      then have "2 powi exponent_of ?q * (2 * of_int N) \<le> ?q * of_int b"
        using nb qpos N(1) by (intro mult_mono) (simp_all add: less_imp_le)
      moreover have "?q * of_int b = of_int a" using bq by simp
      moreover have "(2::rat) powi exponent_of ?q * (2 * of_int N) = 2 * 2 powi (exponent_of ?q + (52 - exponent_of ?q))"
        unfolding Nq by (subst power_int_add) simp_all
      ultimately have "(2 ^ 53 :: rat) \<le> of_int a" by simp
      then have "(of_int (2 ^ 53) :: rat) \<le> of_int a" by simp
      then have "2 ^ 53 \<le> a" by (simp only: of_int_le_iff)
      with a(2) show False by simp
    qed
    then have "?m \<le> (?k + 1) * N - 1" by simp
    then have "(of_int ?m :: rat) \<le> of_int ((?k + 1) * N - 1)" by (simp only: of_int_le_iff)
    then have "of_int ?m * ulp_of ?q \<le> of_int ((?k + 1) * N - 1) * ulp_of ?q"
      using ulp_pos [of ?q] by (simp add: mult_right_mono)
    also have "\<dots> = of_int ?k + 1 - ulp_of ?q" using N(1) by (simp add: u field_simps)
    also have "\<dots> < of_int ?k + 1" using ulp_pos [of ?q] by simp
    finally show ?thesis using qne by (simp add: round_double_def)
  qed
qed

lemma int_true_div_floor:
  assumes "0 \<le> a" "a < 2 ^ 53" and "0 < b" "b < 2 ^ 53"
  shows "int_true_div a b = Inr (round_double (of_int a / of_int b))"
    and "\<lfloor>round_double (of_int a / of_int b)\<rfloor> = a div b"
    and "0 \<le> round_double (of_int a / of_int b)"
    and "round_double (of_int a / of_int b) < 2 ^ 53"
proof -
  let ?r = "round_double (of_int a / of_int b)"
  note rq = round_double_quotient [OF assms]
  show fl: "\<lfloor>?r\<rfloor> = a div b" using rq by (intro floor_unique) simp_all
  have k0: "0 \<le> a div b" using assms(1,3) by (simp add: pos_imp_zdiv_nonneg_iff)
  have "0 \<le> a mod b" using assms(3) by simp
  then have kb: "a div b * b \<le> a" using div_mult_mod_eq [of a b] by linarith
  have "a div b * 1 \<le> a div b * b" using k0 assms(3) by (intro mult_left_mono) simp_all
  then have "a div b \<le> a" using kb by simp
  then have "a div b + 1 \<le> 2 ^ 53" using assms(2) by simp
  then have "(of_int (a div b + 1) :: rat) \<le> of_int (2 ^ 53)" by (simp only: of_int_le_iff)
  then show lt: "?r < 2 ^ 53" using rq(2) by simp
  have "(0::rat) \<le> of_int (a div b)" using k0 by simp
  then show ge: "0 \<le> ?r" using rq(1) by linarith
  have "(2::rat) ^ 53 < 2 ^ 1024" by simp
  then have "finite_double ?r" using lt ge by (simp add: finite_double_def)
  then show "int_true_div a b = Inr ?r" using assms(3) by (simp add: int_true_div_def)
qed

subsection \<open>Rounding is monotone\<close>

lemma exponent_bounds_pos:
  assumes "0 < q"
  shows "2 powi exponent_of q \<le> q" and "q < 2 powi (exponent_of q + 1)"
proof -
  have qne: "q \<noteq> 0" using assms by (metis less_irrefl)
  have a: "\<bar>q\<bar> = q" using assms by (simp only: abs_of_pos)
  show "2 powi exponent_of q \<le> q" using exponent_bounds(1) [OF qne] by (simp only: a)
  show "q < 2 powi (exponent_of q + 1)" using exponent_bounds(2) [OF qne] by (simp only: a)
qed

lemma round_double_upper:
  assumes "0 < q"
  shows "round_double q \<le> 2 powi (max (exponent_of q) (- 1022) + 1)"
proof -
  let ?E = "max (exponent_of q) (- 1022)"
  have qne: "q \<noteq> 0" using assms by simp
  have u: "ulp_of q = 2 powi (?E - 52)" by (simp add: ulp_of_def)
  have "exponent_of q + 1 \<le> ?E + 1" by simp
  then have "(2::rat) powi (exponent_of q + 1) \<le> 2 powi (?E + 1)"
    by (intro power_int_increasing) simp_all
  moreover have "q < 2 powi (exponent_of q + 1)" using assms by (rule exponent_bounds_pos)
  ultimately have "q \<le> 2 powi (?E + 1)" by simp
  then have "q / ulp_of q \<le> 2 powi (?E + 1) / ulp_of q"
    using ulp_pos [of q] by (simp add: divide_right_mono)
  also have "2 powi (?E + 1) / ulp_of q = (2::rat) powi ((?E + 1) - (?E - 52))"
    unfolding u by (simp only: power_int_diff [of "2::rat", simplified])
  also have "(?E + 1) - (?E - 52) = 53" by simp
  also have "(2::rat) powi 53 = of_int (2 ^ 53)" by simp
  finally have "round_half_even (q / ulp_of q) \<le> 2 ^ 53" by (rule round_half_even_le)
  then have "(of_int (round_half_even (q / ulp_of q)) :: rat) \<le> of_int (2 ^ 53)"
    by (simp only: of_int_le_iff)
  then have "of_int (round_half_even (q / ulp_of q)) * ulp_of q \<le> of_int (2 ^ 53) * ulp_of q"
    using ulp_pos [of q] by (simp add: mult_right_mono)
  also have "of_int (2 ^ 53) * ulp_of q = (2::rat) powi 53 * 2 powi (?E - 52)" by (simp add: u)
  also have "\<dots> = 2 powi (53 + (?E - 52))" by (rule power_int_add [symmetric]) simp
  also have "53 + (?E - 52) = ?E + 1" by simp
  finally show ?thesis using qne by (simp add: round_double_def)
qed

lemma round_double_lower:
  assumes "0 < q" and "- 1022 \<le> exponent_of q"
  shows "2 powi exponent_of q \<le> round_double q"
proof -
  let ?e = "exponent_of q"
  have qne: "q \<noteq> 0" using assms by simp
  have u: "ulp_of q = 2 powi (?e - 52)" using assms(2) by (simp add: ulp_of_def max_def)
  have "2 powi ?e \<le> q" using assms(1) by (rule exponent_bounds_pos)
  then have "2 powi ?e / ulp_of q \<le> q / ulp_of q"
    using ulp_pos [of q] by (simp add: divide_right_mono)
  moreover have "2 powi ?e / ulp_of q = (2::rat) powi (?e - (?e - 52))"
    unfolding u by (simp only: power_int_diff [of "2::rat", simplified])
  moreover have "?e - (?e - 52) = 52" by simp
  moreover have "(2::rat) powi 52 = of_int (2 ^ 52)" by simp
  ultimately have "of_int (2 ^ 52) \<le> q / ulp_of q" by (simp only:)
  then have "2 ^ 52 \<le> round_half_even (q / ulp_of q)" by (rule round_half_even_ge)
  then have "(of_int (2 ^ 52) :: rat) \<le> of_int (round_half_even (q / ulp_of q))"
    by (simp only: of_int_le_iff)
  then have "of_int (2 ^ 52) * ulp_of q \<le> of_int (round_half_even (q / ulp_of q)) * ulp_of q"
    using ulp_pos [of q] by (simp add: mult_right_mono)
  moreover have "of_int (2 ^ 52) * ulp_of q = (2::rat) powi 52 * 2 powi (?e - 52)" by (simp add: u)
  moreover have "(2::rat) powi 52 * 2 powi (?e - 52) = 2 powi (52 + (?e - 52))"
    by (rule power_int_add [symmetric]) simp
  moreover have "52 + (?e - 52) = ?e" by simp
  ultimately have "2 powi ?e \<le> of_int (round_half_even (q / ulp_of q)) * ulp_of q" by (simp only:)
  then show ?thesis using qne by (simp add: round_double_def)
qed

lemma round_double_mono:
  assumes "0 \<le> p" and "p \<le> q"
  shows "round_double p \<le> round_double q"
proof (cases "p = 0")
  case True
  have "0 \<le> q" using assms by simp
  then have "0 \<le> round_double q" by (rule round_double_nonneg)
  then show ?thesis using True by (simp add: round_double_def)
next
  case False
  then have p: "0 < p" using assms(1) by simp
  then have q: "0 < q" using assms(2) by simp
  have pne: "p \<noteq> 0" and qne: "q \<noteq> 0" using p q by simp_all
  let ?Ep = "max (exponent_of p) (- 1022)" and ?Eq = "max (exponent_of q) (- 1022)"
  have "2 powi exponent_of p \<le> p" using p by (rule exponent_bounds_pos)
  then have "2 powi exponent_of p \<le> q" using assms(2) by simp
  moreover have "q < 2 powi (exponent_of q + 1)" using q by (rule exponent_bounds_pos)
  ultimately have "exponent_of p < exponent_of q + 1" by (rule two_powi_less_exp)
  then have le: "?Ep \<le> ?Eq" by simp
  show ?thesis
  proof (cases "?Ep = ?Eq")
    case True
    then have u: "ulp_of p = ulp_of q" by (simp only: ulp_of_def)
    have "p / ulp_of q \<le> q / ulp_of q" using assms(2) ulp_pos [of q] by (simp add: divide_right_mono)
    then have "round_half_even (p / ulp_of q) \<le> round_half_even (q / ulp_of q)"
      by (rule round_half_even_mono)
    then have "(of_int (round_half_even (p / ulp_of q)) :: rat) \<le> of_int (round_half_even (q / ulp_of q))"
      by (simp only: of_int_le_iff)
    then have "of_int (round_half_even (p / ulp_of q)) * ulp_of q
        \<le> of_int (round_half_even (q / ulp_of q)) * ulp_of q"
      using ulp_pos [of q] by (simp add: mult_right_mono)
    then show ?thesis using pne qne by (simp add: round_double_def u)
  next
    case False
    with le have lt: "?Ep < ?Eq" by linarith
    then have eq: "- 1022 \<le> exponent_of q" "?Eq = exponent_of q"
      by (auto simp: max_def split: if_splits)
    have "round_double p \<le> 2 powi (?Ep + 1)" using p by (rule round_double_upper)
    also have "(2::rat) powi (?Ep + 1) \<le> 2 powi exponent_of q"
    proof (rule power_int_increasing)
      show "?Ep + 1 \<le> exponent_of q" using lt eq(2) by linarith
    qed simp
    also have "\<dots> \<le> round_double q" using q eq(1) by (rule round_double_lower)
    finally show ?thesis .
  qed
qed

subsection \<open>Results that are finite, and a quotient that is not\<close>

lemma finite_double_code [code]: "finite_double x = (x = 0 \<or> exponent_of x < 1024)"
proof (cases "x = 0")
  case True then show ?thesis by (simp add: finite_double_def)
next
  case False
  note b = exponent_bounds [OF False]
  show ?thesis
  proof
    assume "finite_double x"
    then have "\<bar>x\<bar> < 2 powi 1024" by (simp add: finite_double_def)
    with b(1) have "exponent_of x < 1024" by (rule two_powi_less_exp)
    then show "x = 0 \<or> exponent_of x < 1024" ..
  next
    assume "x = 0 \<or> exponent_of x < 1024"
    with False have "exponent_of x + 1 \<le> 1024" by simp
    then have "(2::rat) powi (exponent_of x + 1) \<le> 2 powi 1024" by (intro power_int_increasing) simp_all
    with b(2) show "finite_double x" by (simp add: finite_double_def)
  qed
qed

lemma round_double_code [code]:
  "round_double q = (if q = 0 then 0 else let u = ulp_of q in of_int (round_half_even (q / u)) * u)"
  by (simp add: round_double_def Let_def)

text \<open>The same functions on integers, for evaluation.\<close>

lemma two_powi_int: "(2::rat) powi e = (if 0 \<le> e then of_int (2 ^ nat e) else 1 / of_int (2 ^ nat (- e)))"
  by (simp add: power_int_def field_simps)

lemma ulp_of_code [code]:
  "ulp_of q = (let e = max (exponent_of q) (- 1022) - 52
               in if 0 \<le> e then of_int (2 ^ nat e) else 1 / of_int (2 ^ nat (- e)))"
  by (simp only: ulp_of_def Let_def two_powi_int)

lemma exponent_of_code [code]:
  "exponent_of q =
     (let a = fst (quotient_of \<bar>q\<bar>); b = snd (quotient_of \<bar>q\<bar>); d = bitlen a - bitlen b
      in if (if 0 \<le> d then 2 ^ nat d * b \<le> a else b \<le> 2 ^ nat (- d) * a) then d else d - 1)"
proof -
  obtain a b where ab: "quotient_of \<bar>q\<bar> = (a, b)" by (cases "quotient_of \<bar>q\<bar>")
  have bpos: "0 < b" using ab by (rule quotient_of_denom_pos)
  have q: "\<bar>q\<bar> = of_int a / of_int b" using ab by (rule quotient_of_div)
  have bq: "(0::rat) < of_int b" using bpos by simp
  let ?d = "bitlen a - bitlen b"
  have "(2::rat) powi ?d \<le> \<bar>q\<bar> \<longleftrightarrow> (if 0 \<le> ?d then 2 ^ nat ?d * b \<le> a else b \<le> 2 ^ nat (- ?d) * a)"
  proof (cases "0 \<le> ?d")
    case True
    have "(2::rat) powi ?d \<le> \<bar>q\<bar> \<longleftrightarrow> (of_int (2 ^ nat ?d * b) :: rat) \<le> of_int a"
      using True bq by (simp add: q two_powi_int pos_le_divide_eq)
    also have "\<dots> \<longleftrightarrow> 2 ^ nat ?d * b \<le> a" by (simp only: of_int_le_iff)
    finally show ?thesis using True by simp
  next
    case False
    have p: "(0::rat) < of_int (2 ^ nat (- ?d))" by simp
    have "(2::rat) powi ?d \<le> \<bar>q\<bar> \<longleftrightarrow> 1 / of_int (2 ^ nat (- ?d)) \<le> (of_int a :: rat) / of_int b"
      using False by (simp only: q two_powi_int if_False)
    also have "\<dots> \<longleftrightarrow> (of_int b :: rat) \<le> of_int (2 ^ nat (- ?d)) * of_int a"
      using bq p by (simp add: field_simps)
    also have "\<dots> \<longleftrightarrow> (of_int b :: rat) \<le> of_int (2 ^ nat (- ?d) * a)" by simp
    also have "\<dots> \<longleftrightarrow> b \<le> 2 ^ nat (- ?d) * a" by (simp only: of_int_le_iff)
    finally show ?thesis using False by simp
  qed
  then show ?thesis by (simp add: exponent_of_def ab Let_def)
qed

lemma float_result_Inr: "float_result x = Inr r \<Longrightarrow> r = round_double x"
  by (simp add: float_result_def Let_def split: if_splits)

lemma float_result_bounded:
  assumes "0 \<le> z" and "z \<le> of_int k" and "k < 2 ^ 53"
  shows "float_result z = Inr (round_double z)"
proof -
  have "round_double z \<le> of_int k" using assms by (rule round_double_le_int)
  also have "(of_int k :: rat) < of_int (2 ^ 53)" using assms(3) by (simp only: of_int_less_iff)
  also have "(of_int (2 ^ 53) :: rat) < 2 ^ 1024" by simp
  finally have "round_double z < 2 ^ 1024" .
  moreover have "0 \<le> round_double z" using assms(1) by (rule round_double_nonneg)
  ultimately have "finite_double (round_double z)" by (simp add: finite_double_def)
  then show ?thesis by (simp add: float_result_def)
qed

lemma int_to_float_exact:
  assumes "0 \<le> k" and "k < 2 ^ 53"
  shows "int_to_float k = Inr (of_int k)"
proof -
  have "(of_int k :: rat) < of_int (2 ^ 53)" using assms(2) by (simp only: of_int_less_iff)
  also have "(of_int (2 ^ 53) :: rat) < 2 ^ 1024" by simp
  finally have "(of_int k :: rat) < 2 ^ 1024" .
  then have "finite_double (of_int k)" using assms(1) by (simp add: finite_double_def)
  then show ?thesis by (simp add: int_to_float_def round_double_int [OF assms])
qed

lemma int_true_div_overflow:
  assumes "0 < b" and "2 ^ 1024 * b \<le> a"
  shows "int_true_div a b = Inl OverflowError"
proof -
  let ?q = "of_int a / of_int b :: rat"
  have bq: "(0::rat) < of_int b" using assms(1) by simp
  have "(of_int (2 ^ 1024 * b) :: rat) \<le> of_int a" using assms(2) by (simp only: of_int_le_iff)
  then have big: "2 powi 1024 \<le> ?q" using bq by (simp add: pos_le_divide_eq)
  have "(0::rat) < 2 powi 1024" by simp
  with big have qpos: "0 < ?q" by linarith
  then have qne: "?q \<noteq> 0" by (metis less_irrefl)
  have "?q < 2 powi (exponent_of ?q + 1)" using qpos by (rule exponent_bounds_pos)
  with big have "1024 < exponent_of ?q + 1" by (rule two_powi_less_exp)
  then have e: "1024 \<le> exponent_of ?q" by simp
  then have "(2::rat) powi 1024 \<le> 2 powi exponent_of ?q" by (intro power_int_increasing) simp_all
  also have "\<dots> \<le> round_double ?q" using qpos e by (intro round_double_lower) simp_all
  finally have "\<not> finite_double (round_double ?q)" by (simp add: finite_double_def)
  then show ?thesis using assms(1) by (simp add: int_true_div_def)
qed

section \<open>Verification of proportional_quotas\<close>

subsection \<open>Dictionaries and the error monad\<close>

lemma sbind_Inr [simp]: "sbind (Inr v) f = f v" by (simp add: sbind_def)
lemma sbind_Inl [simp]: "sbind (Inl e) f = Inl e" by (simp add: sbind_def)

lemma mapM_Inr: "(\<And>x. x \<in> set xs \<Longrightarrow> f x = Inr (g x)) \<Longrightarrow> mapM f xs = Inr (map g xs)"
  by (induction xs) auto

lemma update_fresh: "k \<notin> fst ` set al \<Longrightarrow> AList.update k v al = al @ [(k, v)]"
  by (induction al) auto

lemma fold_update_distinct:
  "distinct (map fst kvs) \<Longrightarrow> fst ` set kvs \<inter> fst ` set acc = {} \<Longrightarrow>
   fold (\<lambda>(k, v). AList.update k v) kvs acc = acc @ kvs"
proof (induction kvs arbitrary: acc)
  case Nil
  then show ?case by simp
next
  case (Cons kv kvs)
  obtain k v where kv: "kv = (k, v)" by (cases kv)
  from Cons.prems have fresh: "k \<notin> fst ` set acc" by (auto simp: kv)
  have "fold (\<lambda>(k, v). AList.update k v) kvs (acc @ [(k, v)]) = (acc @ [(k, v)]) @ kvs"
    using Cons.prems by (intro Cons.IH) (auto simp: kv)
  then show ?case by (simp add: kv update_fresh [OF fresh])
qed

lemma dict_of_distinct: "distinct (map fst kvs) \<Longrightarrow> dict_of kvs = kvs"
  using fold_update_distinct [of kvs "[]"] by (simp add: dict_of_def)

lemma dict_get_map:
  "(c, w) \<in> set ws \<Longrightarrow> distinct (map fst ws) \<Longrightarrow> dict_get (map (\<lambda>(c, w). (c, f c w)) ws) c = Inr (f c w)"
proof -
  assume a: "(c, w) \<in> set ws" and d: "distinct (map fst ws)"
  have "map fst (map (\<lambda>(c, w). (c, f c w)) ws) = map fst ws" by (induction ws) auto
  with d have "distinct (map fst (map (\<lambda>(c, w). (c, f c w)) ws))" by (simp only:)
  moreover have "(c, f c w) \<in> set (map (\<lambda>(c, w). (c, f c w)) ws)" using a by force
  ultimately have "map_of (map (\<lambda>(c, w). (c, f c w)) ws) c = Some (f c w)" by (rule map_of_is_SomeI)
  then show ?thesis by (simp add: dict_get_def)
qed

lemma sum_update_bump:
  "map_of base k = Some v \<Longrightarrow> sum_list (map snd (AList.update k (v + 1) base)) = sum_list (map snd base) + (1::int)"
  by (induction base) (auto split: if_splits)

lemma bump_loop_ok:
  "fracs \<noteq> [] \<Longrightarrow> snd ` set fracs \<subseteq> fst ` set base \<Longrightarrow>
   \<exists>b'. bump_loop fracs base idx = Inr b' \<and> map fst b' = map fst base
      \<and> sum_list (map snd b') = sum_list (map snd base) + int (length idx)
      \<and> (\<forall>c. map_of b' c = map_option (\<lambda>v. v + int (count_list (map (\<lambda>i. snd (fracs ! (i mod length fracs))) idx) c)) (map_of base c))"
proof (induction idx arbitrary: base)
  case Nil
  then show ?case by (simp add: option.map_ident)
next
  case (Cons i idx)
  let ?k = "snd (fracs ! (i mod length fracs))"
  have "fracs ! (i mod length fracs) \<in> set fracs" using Cons.prems(1) by simp
  then have kin: "?k \<in> fst ` set base" using Cons.prems(2) by auto
  then obtain v where v: "map_of base ?k = Some v"
    by (metis domD dom_map_of_conv_image_fst)
  let ?b = "AList.update ?k (v + 1) base"
  have keys: "map fst ?b = map fst base" using kin by (simp add: update_keys)
  then have "snd ` set fracs \<subseteq> fst ` set ?b" using Cons.prems(2) by (metis list.set_map)
  from Cons.IH [OF Cons.prems(1) this] obtain b' where
    b': "bump_loop fracs ?b idx = Inr b'" "map fst b' = map fst ?b"
    "sum_list (map snd b') = sum_list (map snd ?b) + int (length idx)"
    "\<forall>c. map_of b' c = map_option (\<lambda>v. v + int (count_list (map (\<lambda>i. snd (fracs ! (i mod length fracs))) idx) c)) (map_of ?b c)"
    by blast
  have "bump_loop fracs base (i # idx) = Inr b'"
    using Cons.prems(1) v b'(1) by (simp add: Let_def)
  moreover have "map fst b' = map fst base" using b'(2) keys by simp
  moreover have "sum_list (map snd b') = sum_list (map snd base) + int (length (i # idx))"
    using b'(3) sum_update_bump [OF v] by simp
  moreover have "\<forall>c. map_of b' c = map_option (\<lambda>v. v + int (count_list (map (\<lambda>i. snd (fracs ! (i mod length fracs))) (i # idx)) c)) (map_of base c)"
  proof
    fix c
    show "map_of b' c = map_option (\<lambda>v. v + int (count_list (map (\<lambda>i. snd (fracs ! (i mod length fracs))) (i # idx)) c)) (map_of base c)"
      using b'(4) v by (cases "c = ?k") (auto simp: update_conv' option.map_comp comp_def)
  qed
  ultimately show ?case by blast
qed


lemma map_fst_kv: "map fst (map (\<lambda>(c, w). (c, f c w)) ws) = map fst ws"
  by (induction ws) auto

lemma sum_share:
  assumes "T = sum_list (map snd ws)" "T \<noteq> 0"
  shows "sum_list (map (\<lambda>(c, w). share n T w) ws) = of_int n"
proof -
  have "sum_list (map (\<lambda>(c, w). share n T w) ws) = of_int (n * sum_list (map snd ws)) / of_int T" for T
    by (induction ws) (auto simp: share_def add_divide_distrib distrib_left)
  then show ?thesis using assms by simp
qed

lemma sum_floor_frac:
  "sum_list (map (\<lambda>(c, w). (of_int \<lfloor>f w\<rfloor> :: rat)) ws) + sum_list (map (\<lambda>(c, w). frac (f w)) ws)
     = sum_list (map (\<lambda>(c, w). f w) ws)"
  by (induction ws) (auto simp: frac_def)

lemma sum_frac_bounds:
  "0 \<le> sum_list (map (\<lambda>(c, w). frac (f w :: rat)) ws)"
  "ws \<noteq> [] \<Longrightarrow> sum_list (map (\<lambda>(c, w). frac (f w :: rat)) ws) < of_nat (length ws)"
proof -
  show "0 \<le> sum_list (map (\<lambda>(c, w). frac (f w :: rat)) ws)"
    by (induction ws) (auto simp: frac_ge_0)
  show "ws \<noteq> [] \<Longrightarrow> sum_list (map (\<lambda>(c, w). frac (f w :: rat)) ws) < of_nat (length ws)"
  proof (induction ws)
    case Nil then show ?case by simp
  next
    case (Cons a ws)
    obtain c w where a: "a = (c, w)" by (cases a)
    have lt: "frac (f w) < 1" by (rule frac_lt_1)
    show ?case
    proof (cases "ws = []")
      case True then show ?thesis using lt by (simp add: a)
    next
      case False
      with Cons.IH have "sum_list (map (\<lambda>(c, w). frac (f w)) ws) < of_nat (length ws)" by simp
      with lt show ?thesis by (simp add: a)
    qed
  qed
qed

lemma remainder_bounds:
  fixes n T :: int and ws :: "('a \<times> int) list"
  assumes "T = sum_list (map snd ws)" "T \<noteq> 0"
  defines "remn \<equiv> n - sum_list (map snd (map (\<lambda>(c, w). (c, \<lfloor>share n T w\<rfloor>)) ws))"
  shows "0 \<le> remn" "remn < int (length ws)"
    "(of_int remn :: rat) = sum_list (map (\<lambda>(c, w). frac (share n T w)) ws)"
proof -
  have ne: "ws \<noteq> []" using assms by auto
  have m: "map snd (map (\<lambda>(c, w). (c, \<lfloor>share n T w\<rfloor>)) ws) = map (\<lambda>(c, w). \<lfloor>share n T w\<rfloor>) ws"
    by (induction ws) auto
  have oi: "(of_int (sum_list (map (\<lambda>(c, w). \<lfloor>share n T w\<rfloor>) ws)) :: rat)
      = sum_list (map (\<lambda>(c, w). of_int \<lfloor>share n T w\<rfloor>) ws)"
    by (induction ws) auto
  have "(of_int remn :: rat) = of_int n - sum_list (map (\<lambda>(c, w). of_int \<lfloor>share n T w\<rfloor>) ws)"
    unfolding remn_def m by (simp only: of_int_diff oi)
  also have "\<dots> = sum_list (map (\<lambda>(c, w). frac (share n T w)) ws)"
    using sum_floor_frac [of "share n T" ws] sum_share [OF assms(1,2), of n] by simp
  finally show eq: "(of_int remn :: rat) = sum_list (map (\<lambda>(c, w). frac (share n T w)) ws)" .
  have "(0::rat) \<le> of_int remn" using sum_frac_bounds(1) [of "share n T" ws] eq by simp
  then show "0 \<le> remn" by simp
  have "(of_int remn :: rat) < of_int (int (length ws))"
    using sum_frac_bounds(2) [OF ne, of "share n T"] eq by simp
  then show "remn < int (length ws)" by (simp only: of_int_less_iff)
qed

lemma mapM_pairs:
  "mapM (\<lambda>(c, w). sbind (g c w) (\<lambda>v. Inr (c, v))) ws = Inr kvs \<Longrightarrow> map fst kvs = map fst ws"
proof (induction ws arbitrary: kvs)
  case Nil
  then show ?case by auto
next
  case (Cons a ws)
  obtain c w where a: "a = (c, w)" by (cases a)
  from Cons.prems obtain v kvs' where
    "mapM (\<lambda>(c, w). sbind (g c w) (\<lambda>v. Inr (c, v))) ws = Inr kvs'" and k: "kvs = (c, v) # kvs'"
    by (auto simp: a sbind_def split: sum.splits)
  from Cons.IH [OF this(1)] show ?case by (simp add: k a)
qed

lemma bump_loop_Inr:
  "bump_loop fracs base idx = Inr b' \<Longrightarrow>
   map fst b' = map fst base \<and> sum_list (map snd b') = sum_list (map snd base) + int (length idx)"
proof (induction idx arbitrary: base)
  case Nil
  then show ?case by simp
next
  case (Cons i idx)
  let ?k = "snd (fracs ! (i mod length fracs))"
  from Cons.prems obtain v where v: "map_of base ?k = Some v"
    and r: "bump_loop fracs (AList.update ?k (v + 1) base) idx = Inr b'"
    by (auto simp: Let_def split: if_splits option.splits)
  have "?k \<in> fst ` set base" using v by (metis domI dom_map_of_conv_image_fst)
  then have keys: "map fst (AList.update ?k (v + 1) base) = map fst base" by (simp add: update_keys)
  from Cons.IH [OF r] keys sum_update_bump [OF v] show ?case by simp
qed

lemma map_floor_kv: "map (\<lambda>(c, v). (c, \<lfloor>v\<rfloor>)) (map (\<lambda>(c, w). (c, f w)) ws) = map (\<lambda>(c, w). (c, \<lfloor>f w\<rfloor>)) ws"
  by (induction ws) auto

text \<open>
  The function, once the shares \<open>rv w\<close> and their fractional parts \<open>fr w\<close> are
  known to be computed without an exception.
\<close>

lemma proportional_quotas_unfold:
  fixes rv fr :: "int \<Rightarrow> rat"
  assumes d: "distinct (map fst ws)" and T: "T = sum_list (map snd ws)" "T \<noteq> 0" and n: "0 < n"
    and rv: "\<And>c w. (c, w) \<in> set ws \<Longrightarrow> int_true_div (n * w) T = Inr (rv w)"
    and fr: "\<And>c w. (c, w) \<in> set ws \<Longrightarrow> float_sub_int (rv w) \<lfloor>rv w\<rfloor> = Inr (fr w)"
  shows "proportional_quotas ws n =
     (let base = map (\<lambda>(c, w). (c, \<lfloor>rv w\<rfloor>)) ws;
          remn = n - sum_list (map snd base)
      in if remn > 0
         then bump_loop (rev (sort (map (\<lambda>(c, w). (fr w, c)) ws))) base [0 ..< nat remn]
         else Inr base)"
proof -
  let ?raw = "map (\<lambda>(c, w). (c, rv w)) ws"
  let ?base = "map (\<lambda>(c, w). (c, \<lfloor>rv w\<rfloor>)) ws"
  have "mapM (\<lambda>(c, w). sbind (int_true_div (n * w) T) (\<lambda>v. Inr (c, v))) ws = Inr ?raw"
  proof (rule mapM_Inr)
    fix x assume x: "x \<in> set ws"
    obtain c w where xc: "x = (c, w)" by (cases x)
    show "(case x of (c, w) \<Rightarrow> sbind (int_true_div (n * w) T) (\<lambda>v. Inr (c, v)))
        = Inr (case x of (c, w) \<Rightarrow> (c, rv w))"
      using rv [of c w] x by (simp add: xc)
  qed
  moreover have "dict_of ?raw = ?raw"
    using d by (simp only: dict_of_distinct map_fst_kv)
  ultimately have raw: "raw_shares ws n T = Inr ?raw" by (simp add: raw_shares_def)
  have base: "dict_of (map (\<lambda>(c, v). (c, \<lfloor>v\<rfloor>)) ?raw) = ?base"
    using d by (simp only: map_floor_kv dict_of_distinct map_fst_kv)
  have fp: "frac_pairs ?raw ?base ws = Inr (map (\<lambda>(c, w). (fr w, c)) ws)"
    unfolding frac_pairs_def
  proof (rule mapM_Inr)
    fix x assume x: "x \<in> set ws"
    obtain c w where xc: "x = (c, w)" by (cases x)
    have 1: "dict_get ?raw c = Inr (rv w)"
      using dict_get_map [of c w ws "\<lambda>c w. rv w"] x d by (simp add: xc)
    have 2: "dict_get ?base c = Inr \<lfloor>rv w\<rfloor>"
      using dict_get_map [of c w ws "\<lambda>c w. \<lfloor>rv w\<rfloor>"] x d by (simp add: xc)
    show "(case x of (c, uu) \<Rightarrow> sbind (dict_get ?raw c) (\<lambda>r. sbind (dict_get ?base c)
              (\<lambda>b. sbind (float_sub_int r b) (\<lambda>f. Inr (f, c)))))
        = Inr (case x of (c, w) \<Rightarrow> (fr w, c))"
      using fr [of c w] x by (simp add: xc 1 2)
  qed
  have c: "\<not> (T = 0 \<or> n \<le> 0)" using T n by simp
  show ?thesis
    by (simp only: proportional_quotas_def Let_def T(1) [symmetric] raw base fp c if_False sbind_Inr)
qed

text \<open>What holds of every call that returns.\<close>

lemma proportional_quotas_returned:
  fixes ws :: "(string \<times> int) list"
  assumes d: "distinct (map fst ws)" and r: "proportional_quotas ws n = Inr q"
  shows "map fst q = map fst ws"
    and "sum_list (map snd ws) \<noteq> 0 \<Longrightarrow> 0 < n \<Longrightarrow> n \<le> sum_list (map snd q)"
proof -
  let ?T = "sum_list (map snd ws)"
  have "map fst q = map fst ws \<and> (?T \<noteq> 0 \<and> 0 < n \<longrightarrow> n \<le> sum_list (map snd q))"
  proof (cases "?T = 0 \<or> n \<le> 0")
    case True
    have "dict_of (map (\<lambda>(c, w). (c, 0::int)) ws) = map (\<lambda>(c, w). (c, 0)) ws"
      using d by (simp only: dict_of_distinct map_fst_kv)
    with True r have "q = map (\<lambda>(c, w). (c, 0)) ws" by (simp add: proportional_quotas_def)
    then show ?thesis using True by (auto simp: map_fst_kv)
  next
    case False
    with r obtain raw where raw: "raw_shares ws n ?T = Inr raw"
      and rest: "(let base = dict_of (map (\<lambda>(c, v). (c, \<lfloor>v\<rfloor>)) raw);
                     remn = n - sum_list (map snd base)
                 in if remn > 0 then
                      sbind (frac_pairs raw base ws) (\<lambda>fs. bump_loop (rev (sort fs)) base [0 ..< nat remn])
                    else Inr base) = Inr q"
      by (cases "raw_shares ws n ?T") (auto simp: proportional_quotas_def Let_def)
    from raw obtain kvs where
      kvs: "mapM (\<lambda>(c, w). sbind (int_true_div (n * w) ?T) (\<lambda>v. Inr (c, v))) ws = Inr kvs"
      and rk: "raw = dict_of kvs"
      by (cases "mapM (\<lambda>(c, w). sbind (int_true_div (n * w) ?T) (\<lambda>v. Inr (c, v))) ws")
         (auto simp: raw_shares_def)
    have kk: "map fst kvs = map fst ws" using kvs by (rule mapM_pairs)
    then have "raw = kvs" using d rk by (simp add: dict_of_distinct)
    then have rkeys: "map fst raw = map fst ws" using kk by simp
    let ?base = "map (\<lambda>(c, v). (c, \<lfloor>v\<rfloor>)) raw"
    have bkeys: "map fst ?base = map fst ws" using rkeys by (simp only: map_fst_kv)
    then have b: "dict_of ?base = ?base" using d by (simp add: dict_of_distinct)
    let ?remn = "n - sum_list (map snd ?base)"
    show ?thesis
    proof (cases "?remn > 0")
      case True
      with rest obtain fs where "bump_loop (rev (sort fs)) ?base [0 ..< nat ?remn] = Inr q"
        by (cases "frac_pairs raw ?base ws") (auto simp: Let_def b)
      from bump_loop_Inr [OF this] True bkeys show ?thesis by simp
    next
      case F: False
      with rest have "q = ?base" by (simp add: Let_def b)
      then show ?thesis using F bkeys by simp
    qed
  qed
  then show "map fst q = map fst ws"
    and "sum_list (map snd ws) \<noteq> 0 \<Longrightarrow> 0 < n \<Longrightarrow> n \<le> sum_list (map snd q)"
    by simp_all
qed

lemma take_rev_sort_rank:
  fixes xs :: "('a :: linorder) list"
  assumes d: "distinct xs" and x: "x \<in> set xs"
  shows "x \<in> set (take k (rev (sort xs))) \<longleftrightarrow> card {y \<in> set xs. x < y} < k"
proof -
  let ?ys = "rev (sort xs)"
  have dy: "distinct ?ys" using d by simp
  have sy: "set ?ys = set xs" by simp
  have "sorted_wrt (<) (sort xs)" using d by (simp add: strict_sorted_iff)
  then have st: "sorted_wrt (\<lambda>a b. b < a) ?ys" by (simp add: sorted_wrt_rev)
  from x obtain i where i: "i < length ?ys" "?ys ! i = x"
    by (metis sy in_set_conv_nth)
  have gt: "{y \<in> set xs. x < y} = set (take i ?ys)"
  proof (intro set_eqI iffI)
    fix y assume "y \<in> {y \<in> set xs. x < y}"
    then have y: "y \<in> set ?ys" "x < y" by simp_all
    then obtain j where j: "j < length ?ys" "?ys ! j = y" by (metis in_set_conv_nth)
    have "j < i"
    proof (rule ccontr)
      assume "\<not> j < i"
      then have "i = j \<or> i < j" by auto
      then show False
      proof
        assume "i = j" then show False using i j y by simp
      next
        assume "i < j"
        then have "?ys ! j < ?ys ! i" using sorted_wrt_nth_less [OF st _ j(1), of i] by simp
        then show False using i j y by simp
      qed
    qed
    then show "y \<in> set (take i ?ys)" using j i by (auto simp: in_set_conv_nth)
  next
    fix y assume "y \<in> set (take i ?ys)"
    then obtain j where j: "j < i" "j < length ?ys" "?ys ! j = y"
      by (auto simp: in_set_conv_nth)
    have "?ys ! i < ?ys ! j" using sorted_wrt_nth_less [OF st j(1) i(1)] by simp
    then have "x < y" using i j by simp
    moreover have "y \<in> set xs" using j by (metis sy nth_mem)
    ultimately show "y \<in> {y \<in> set xs. x < y}" by simp
  qed
  have "card (set (take i ?ys)) = i"
    using dy i(1) by (simp add: distinct_card)
  then have c: "card {y \<in> set xs. x < y} = i" by (simp only: gt)
  have "x \<in> set (take k ?ys) \<longleftrightarrow> i < k"
  proof
    assume "x \<in> set (take k ?ys)"
    then obtain j where j: "j < k" "j < length ?ys" "?ys ! j = x"
      by (auto simp: in_set_conv_nth)
    then have "?ys ! j = ?ys ! i" using i by simp
    then have "j = i" using nth_eq_iff_index_eq [OF dy j(2) i(1)] by simp
    then show "i < k" using j by simp
  next
    assume "i < k"
    then show "x \<in> set (take k ?ys)" using i by (auto simp: in_set_conv_nth)
  qed
  then show ?thesis by (simp only: c)
qed

lemma count_list_distinct: "distinct xs \<Longrightarrow> count_list xs c = (if c \<in> set xs then 1 else 0)"
  by (induction xs) auto

lemma map_nth_mod_upt:
  "k \<le> length ys \<Longrightarrow> ys \<noteq> [] \<Longrightarrow> map (\<lambda>i. f (ys ! (i mod length ys))) [0 ..< k] = map f (take k ys)"
proof (rule nth_equalityI)
  assume k: "k \<le> length ys"
  show "length (map (\<lambda>i. f (ys ! (i mod length ys))) [0 ..< k]) = length (map f (take k ys))"
    using k by simp
  fix i assume "i < length (map (\<lambda>i. f (ys ! (i mod length ys))) [0 ..< k])"
  then have "i < k" by simp
  then show "map (\<lambda>i. f (ys ! (i mod length ys))) [0 ..< k] ! i = map f (take k ys) ! i"
    using k by simp
qed

lemma map_of_kv:
  "(c, w) \<in> set ws \<Longrightarrow> distinct (map fst ws) \<Longrightarrow> map_of (map (\<lambda>(c, w). (c, f c w)) ws) c = Some (f c w)"
  using dict_get_map [of c w ws f] by (auto simp: dict_get_def split: option.splits)

lemma proportional_quotas_char:
  fixes ws :: "(string \<times> int) list" and rv fr :: "int \<Rightarrow> rat"
  assumes d: "distinct (map fst ws)" and T: "T = sum_list (map snd ws)" "T \<noteq> 0" and n: "0 < n"
    and rv: "\<And>c w. (c, w) \<in> set ws \<Longrightarrow> int_true_div (n * w) T = Inr (rv w)"
    and fr: "\<And>c w. (c, w) \<in> set ws \<Longrightarrow> float_sub_int (rv w) \<lfloor>rv w\<rfloor> = Inr (fr w)"
  defines "fs \<equiv> map (\<lambda>(c, w). (fr w, c)) ws"
  defines "remn \<equiv> n - sum_list (map snd (map (\<lambda>(c, w). (c, \<lfloor>rv w\<rfloor>)) ws))"
  assumes rb: "0 \<le> remn" "remn < int (length ws)"
  shows "\<exists>q. proportional_quotas ws n = Inr q \<and> map fst q = map fst ws \<and> sum_list (map snd q) = n
     \<and> (\<forall>(c, w) \<in> set ws. map_of q c =
           Some (\<lfloor>rv w\<rfloor> + (if card {y \<in> set fs. (fr w, c) < y} < nat remn then 1 else 0)))"
proof -
  let ?base = "map (\<lambda>(c, w). (c, \<lfloor>rv w\<rfloor>)) ws"
  let ?rk = "rev (sort fs)"
  have ne: "ws \<noteq> []" using T by auto
  have unf: "proportional_quotas ws n =
      (if remn > 0 then bump_loop ?rk ?base [0 ..< nat remn] else Inr ?base)"
    using proportional_quotas_unfold [OF d T n rv fr] by (simp only: Let_def fs_def remn_def)
  have kb: "map fst ?base = map fst ws" by (rule map_fst_kv)
  have sfs: "map snd fs = map fst ws" unfolding fs_def by (induction ws) auto
  have dfs: "distinct fs" using d sfs by (metis distinct_map)
  have injs: "inj_on snd (set fs)" using d sfs by (metis distinct_map)
  have "mset (map snd ?rk) = mset (map snd fs)" by simp
  then have dsr: "distinct (map snd ?rk)" using d sfs by (metis mset_eq_imp_distinct_iff)
  have basev: "map_of ?base c = Some \<lfloor>rv w\<rfloor>" if "(c, w) \<in> set ws" for c w
    using map_of_kv [OF that d, of "\<lambda>c w. \<lfloor>rv w\<rfloor>"] .
  show ?thesis
  proof (cases "remn > 0")
    case False
    with rb have r0: "remn = 0" by simp
    have "proportional_quotas ws n = Inr ?base" using unf r0 by simp
    moreover have "sum_list (map snd ?base) = n" using r0 by (simp add: remn_def)
    moreover have "\<forall>(c, w) \<in> set ws. map_of ?base c =
           Some (\<lfloor>rv w\<rfloor> + (if card {y \<in> set fs. (fr w, c) < y} < nat remn then 1 else 0))"
      using basev r0 by auto
    ultimately show ?thesis using kb by blast
  next
    case True
    let ?k = "nat remn"
    have klen: "?k \<le> length ?rk" using rb by (simp add: fs_def)
    have "length ?rk = length ws" by (simp add: fs_def)
    then have rne: "?rk \<noteq> []" using ne by (metis length_0_conv)
    have "snd ` set ?rk = fst ` set ?base"
    proof -
      have "snd ` set ?rk = set (map snd fs)" by simp
      also have "\<dots> = set (map fst ?base)" by (simp only: sfs kb)
      also have "\<dots> = fst ` set ?base" by (rule set_map)
      finally show ?thesis .
    qed
    then have sub: "snd ` set ?rk \<subseteq> fst ` set ?base" by simp
    from bump_loop_ok [OF rne sub, of "[0 ..< ?k]"] obtain b' where
      b': "bump_loop ?rk ?base [0 ..< ?k] = Inr b'" "map fst b' = map fst ?base"
        "sum_list (map snd b') = sum_list (map snd ?base) + int (length [0 ..< ?k])"
        "\<forall>c. map_of b' c = map_option (\<lambda>v. v + int (count_list (map (\<lambda>i. snd (?rk ! (i mod length ?rk))) [0 ..< ?k]) c)) (map_of ?base c)"
      by blast
    have keys: "map (\<lambda>i. snd (?rk ! (i mod length ?rk))) [0 ..< ?k] = map snd (take ?k ?rk)"
      using map_nth_mod_upt [OF klen rne] .
    have dk: "distinct (map snd (take ?k ?rk))"
      using dsr by (metis distinct_take take_map)
    have res: "proportional_quotas ws n = Inr b'" using unf True b'(1) by simp
    have sum: "sum_list (map snd b') = n" using b'(3) rb by (simp add: remn_def)
    have pt: "map_of b' c = Some (\<lfloor>rv w\<rfloor> + (if card {y \<in> set fs. (fr w, c) < y} < ?k then 1 else 0))"
      if cw: "(c, w) \<in> set ws" for c w
    proof -
      let ?x = "(fr w, c)"
      have xin: "?x \<in> set fs" using cw by (force simp: fs_def)
      have mem: "c \<in> set (map snd (take ?k ?rk)) \<longleftrightarrow> ?x \<in> set (take ?k ?rk)"
      proof
        assume "c \<in> set (map snd (take ?k ?rk))"
        then obtain y where y: "y \<in> set (take ?k ?rk)" "snd y = c" by auto
        then have "y \<in> set fs" by (metis in_set_takeD set_rev set_sort)
        moreover have "snd y = snd ?x" using y(2) by simp
        ultimately have "y = ?x" using inj_onD [OF injs _ _ xin, of y] by blast
        with y(1) show "?x \<in> set (take ?k ?rk)" by simp
      next
        assume "?x \<in> set (take ?k ?rk)"
        then show "c \<in> set (map snd (take ?k ?rk))" by force
      qed
      have "map_of b' c = Some (\<lfloor>rv w\<rfloor> + int (count_list (map snd (take ?k ?rk)) c))"
        using b'(4) [unfolded keys] basev [OF cw] by simp
      also have "int (count_list (map snd (take ?k ?rk)) c) = (if ?x \<in> set (take ?k ?rk) then 1 else 0)"
        using count_list_distinct [OF dk, of c] mem by simp
      also have "?x \<in> set (take ?k ?rk) \<longleftrightarrow> card {y \<in> set fs. ?x < y} < ?k"
        by (rule take_rev_sort_rank [OF dfs xin])
      finally show ?thesis .
    qed
    show ?thesis using res b'(2) kb sum pt by auto
  qed
qed

lemma zero_quotas:
  assumes d: "distinct (map fst ws)" and z: "sum_list (map snd ws) = 0 \<or> n \<le> 0"
  shows "proportional_quotas ws n = Inr (map (\<lambda>(c, w). (c, 0)) ws)"
proof -
  have "dict_of (map (\<lambda>(c, w). (c, 0::int)) ws) = map (\<lambda>(c, w). (c, 0)) ws"
    using d by (simp only: dict_of_distinct map_fst_kv)
  then show ?thesis using z by (simp add: proportional_quotas_def)
qed

lemma rank_count:
  fixes ws :: "(string \<times> int) list" and h :: "int \<Rightarrow> rat"
  assumes d: "distinct (map fst ws)"
  shows "card {y \<in> set (map (\<lambda>(c, w). (h w, c)) ws). (h w0, c0) < y}
       = length (filter (\<lambda>x. h w0 < h (snd x) \<or> (h w0 = h (snd x) \<and> c0 < fst x)) ws)"
proof -
  let ?g = "\<lambda>(c, w). (h w, c)"
  let ?P = "\<lambda>x. h w0 < h (snd x) \<or> (h w0 = h (snd x) \<and> c0 < fst x)"
  have dw: "distinct ws" using d by (metis distinct_map)
  have inj: "inj_on ?g (set ws)"
  proof (rule inj_onI)
    fix x y assume x: "x \<in> set ws" and y: "y \<in> set ws" and e: "?g x = ?g y"
    then have "fst x = fst y" by (auto split: prod.splits)
    with d x y show "x = y" by (metis distinct_map inj_onD)
  qed
  have pw: "(h w0, c0) < ?g x \<longleftrightarrow> ?P x" for x
    by (cases x) (auto simp: less_prod_def)
  have "{y \<in> set (map ?g ws). (h w0, c0) < y} = ?g ` {x \<in> set ws. (h w0, c0) < ?g x}"
    by (simp only: set_map) blast
  then have "card {y \<in> set (map ?g ws). (h w0, c0) < y} = card (?g ` {x \<in> set ws. ?P x})"
    by (simp only: pw)
  also have "\<dots> = card {x \<in> set ws. ?P x}"
    by (rule card_image) (rule inj_on_subset [OF inj], blast)
  also have "{x \<in> set ws. ?P x} = set (filter ?P ws)"
    by (simp only: set_filter)
  also have "card (set (filter ?P ws)) = length (filter ?P ws)"
    by (rule distinct_card) (use dw in simp)
  finally show ?thesis .
qed

text \<open>
  While \<open>n_total\<close> times the total weight stays below \<open>2 ^ 53\<close>, every share is
  computed with its exact integer part, so the floors leave a remainder between 0
  and the number of categories.
\<close>

lemma weight_le_total:
  fixes ws :: "('a \<times> int) list"
  assumes "\<forall>(c, w) \<in> set ws. 0 \<le> w" and "(c, w) \<in> set ws"
  shows "0 \<le> w" and "w \<le> sum_list (map snd ws)"
proof -
  show "0 \<le> w" using assms by auto
  have "\<forall>x \<in> set xs. 0 \<le> x \<Longrightarrow> v \<in> set xs \<Longrightarrow> v \<le> sum_list xs" for v and xs :: "int list"
  proof (induction xs)
    case Nil
    then show ?case by simp
  next
    case (Cons a xs)
    have "0 \<le> sum_list xs" using Cons.prems(1) by (intro sum_list_nonneg) simp
    then show ?case using Cons by auto
  qed
  moreover have "\<forall>x \<in> set (map snd ws). 0 \<le> x" using assms(1) by auto
  moreover have "w \<in> set (map snd ws)" using assms(2) by force
  ultimately show "w \<le> sum_list (map snd ws)" by blast
qed

lemma bounded_shares:
  fixes ws :: "(string \<times> int) list"
  assumes nn: "\<forall>(c, w) \<in> set ws. 0 \<le> w" and T: "sum_list (map snd ws) \<noteq> 0" and n: "0 < n"
    and bd: "n * sum_list (map snd ws) < 2 ^ 53" and cw: "(c, w) \<in> set ws"
  shows "int_true_div (n * w) (sum_list (map snd ws)) = Inr (double_share ws n w)"
    and "\<lfloor>double_share ws n w\<rfloor> = \<lfloor>share n (sum_list (map snd ws)) w\<rfloor>"
    and "0 \<le> \<lfloor>double_share ws n w\<rfloor>"
    and "float_sub_int (double_share ws n w) \<lfloor>double_share ws n w\<rfloor> = Inr (double_frac (double_share ws n w))"
proof -
  let ?T = "sum_list (map snd ws)"
  note w = weight_le_total [OF nn cw]
  have Tpos: "0 < ?T" using w T by linarith
  have a0: "0 \<le> n * w" using n w(1) by simp
  have "n * w \<le> n * ?T" using n w(2) by (simp add: mult_left_mono)
  then have a1: "n * w < 2 ^ 53" using bd by linarith
  have "1 * ?T \<le> n * ?T" using n Tpos by (intro mult_right_mono) simp_all
  then have b1: "?T < 2 ^ 53" using bd by simp
  note itd = int_true_div_floor [OF a0 a1 Tpos b1]
  have ds: "double_share ws n w = round_double (of_int (n * w) / of_int ?T)"
    by (simp only: double_share_def share_def)
  show "int_true_div (n * w) ?T = Inr (double_share ws n w)" using itd(1) by (simp only: ds)
  have "\<lfloor>share n ?T w\<rfloor> = n * w div ?T"
    unfolding share_def by (rule floor_divide_of_int_eq)
  then show fl: "\<lfloor>double_share ws n w\<rfloor> = \<lfloor>share n ?T w\<rfloor>" using itd(2) by (simp only: ds)
  let ?k = "\<lfloor>double_share ws n w\<rfloor>"
  show k0: "0 \<le> ?k" using itd(3) by (simp only: ds zero_le_floor)
  have "(of_int ?k :: rat) \<le> double_share ws n w" by (rule of_int_floor_le)
  also have "\<dots> < 2 ^ 53" using itd(4) by (simp only: ds)
  finally have "(of_int ?k :: rat) < of_int (2 ^ 53)" by simp
  then have k1: "?k < 2 ^ 53" by (simp only: of_int_less_iff)
  have c: "int_to_float ?k = Inr (of_int ?k)" using k0 k1 by (rule int_to_float_exact)
  have z0: "0 \<le> double_share ws n w - of_int ?k" by simp
  have "double_share ws n w - of_int ?k \<le> 1" by linarith
  then have z1: "double_share ws n w - of_int ?k \<le> of_int 1" by simp
  have "float_result (double_share ws n w - of_int ?k) = Inr (round_double (double_share ws n w - of_int ?k))"
    using z0 z1 by (rule float_result_bounded) simp
  then show "float_sub_int (double_share ws n w) ?k = Inr (double_frac (double_share ws n w))"
    by (simp add: float_sub_int_def c fsub_def double_frac_def)
qed

lemma quotas_rule:
  fixes ws :: "(string \<times> int) list"
  assumes d: "distinct (map fst ws)" and nn: "\<forall>(c, w) \<in> set ws. 0 \<le> w"
    and T: "sum_list (map snd ws) \<noteq> 0" and n: "0 < n" and bd: "n * sum_list (map snd ws) < 2 ^ 53"
  shows "\<exists>q. proportional_quotas ws n = Inr q \<and> map fst q = map fst ws \<and> sum_list (map snd q) = n
     \<and> (\<forall>(c, w) \<in> set ws. map_of q c =
           Some (\<lfloor>double_share ws n w\<rfloor>
                 + (if int (length (filter (\<lambda>x. outranks ws n x (c, w)) ws)) < floor_remainder ws n then 1 else 0)))"
proof -
  let ?T = "sum_list (map snd ws)"
  let ?rv = "double_share ws n"
  let ?fr = "\<lambda>w. double_frac (double_share ws n w)"
  note bs = bounded_shares [OF nn T n bd]
  have m: "map snd (map (\<lambda>(c, w). (c, \<lfloor>?rv w\<rfloor>)) ws) = map (\<lambda>(c, w). \<lfloor>?rv w\<rfloor>) ws"
    by (induction ws) auto
  have rem: "n - sum_list (map snd (map (\<lambda>(c, w). (c, \<lfloor>?rv w\<rfloor>)) ws)) = floor_remainder ws n"
    unfolding m floor_remainder_def ..
  have fe: "map (\<lambda>(c, w). (c, \<lfloor>?rv w\<rfloor>)) ws = map (\<lambda>(c, w). (c, \<lfloor>share n ?T w\<rfloor>)) ws"
    using bs(2) by (intro map_cong) auto
  have rb: "0 \<le> floor_remainder ws n" "floor_remainder ws n < int (length ws)"
    using remainder_bounds(1,2) [OF refl T, of n] rem unfolding fe by simp_all
  note ch = proportional_quotas_char [where ws = ws and n = n and T = ?T and rv = ?rv and fr = ?fr,
      unfolded rem]
  have "\<exists>q. proportional_quotas ws n = Inr q \<and> map fst q = map fst ws \<and> sum_list (map snd q) = n
     \<and> (\<forall>(c, w) \<in> set ws. map_of q c =
           Some (\<lfloor>?rv w\<rfloor> + (if card {y \<in> set (map (\<lambda>(c, w). (?fr w, c)) ws). (?fr w, c) < y}
                  < nat (floor_remainder ws n) then 1 else 0)))"
  proof (rule ch)
    show "distinct (map fst ws)" by (rule d)
    show "?T = sum_list (map snd ws)" by (rule refl)
    show "?T \<noteq> 0" by (rule T)
    show "0 < n" by (rule n)
    show "int_true_div (n * w) ?T = Inr (?rv w)" if "(c, w) \<in> set ws" for c w
      using that by (rule bs(1))
    show "float_sub_int (?rv w) \<lfloor>?rv w\<rfloor> = Inr (?fr w)" if "(c, w) \<in> set ws" for c w
      using that by (rule bs(4))
    show "0 \<le> floor_remainder ws n" by (rule rb(1))
    show "floor_remainder ws n < int (length ws)" by (rule rb(2))
  qed
  then obtain q where
    q: "proportional_quotas ws n = Inr q" "map fst q = map fst ws" "sum_list (map snd q) = n"
    and pt: "\<forall>(c, w) \<in> set ws. map_of q c =
           Some (\<lfloor>?rv w\<rfloor> + (if card {y \<in> set (map (\<lambda>(c, w). (?fr w, c)) ws). (?fr w, c) < y}
                  < nat (floor_remainder ws n) then 1 else 0))"
    by blast
  have "map_of q c = Some (\<lfloor>?rv w\<rfloor>
                 + (if int (length (filter (\<lambda>x. outranks ws n x (c, w)) ws)) < floor_remainder ws n then 1 else 0))"
    if cw: "(c, w) \<in> set ws" for c w
  proof -
    have oc: "card {y \<in> set (map (\<lambda>(c, w). (?fr w, c)) ws). (?fr w, c) < y}
        = length (filter (\<lambda>x. outranks ws n x (c, w)) ws)"
      using rank_count [OF d, of ?fr w c] by (simp add: outranks_def eq_commute)
    have "map_of q c = Some (\<lfloor>?rv w\<rfloor> + (if card {y \<in> set (map (\<lambda>(c, w). (?fr w, c)) ws). (?fr w, c) < y}
                  < nat (floor_remainder ws n) then 1 else 0))"
      using pt cw by blast
    then have "map_of q c = Some (\<lfloor>?rv w\<rfloor> + (if length (filter (\<lambda>x. outranks ws n x (c, w)) ws)
                  < nat (floor_remainder ws n) then 1 else 0))"
      by (simp only: oc)
    moreover have "length (filter (\<lambda>x. outranks ws n x (c, w)) ws) < nat (floor_remainder ws n)
        \<longleftrightarrow> int (length (filter (\<lambda>x. outranks ws n x (c, w)) ws)) < floor_remainder ws n"
      using rb by linarith
    ultimately show ?thesis by (simp only:)
  qed
  with q show ?thesis by blast
qed

subsection \<open>The quota contract\<close>

text \<open>
  Claim C1, for totals within the range of exact shares.  For distinct category
  names, non-negative weights and \<open>n_total\<close> times the total weight below
  \<open>2 ^ 53\<close>: when the total weight is 0 or \<open>n_total \<le> 0\<close>, \<open>proportional_quotas\<close>
  returns the quota 0 for every category; otherwise it returns non-negative
  quotas, one per category, whose sum is exactly \<open>n_total\<close>.  In both cases the
  call returns (no exception).
\<close>

theorem proportional_quotas_sums_to_n_total:
  fixes weights :: "(string \<times> int) list"
  assumes "distinct (map fst weights)" and "\<forall>(c, w) \<in> set weights. 0 \<le> w"
    and "n_total * sum_list (map snd weights) < 2 ^ 53"
  shows "(sum_list (map snd weights) = 0 \<or> n_total \<le> 0 \<longrightarrow>
            (\<exists>q. proportional_quotas weights n_total = Inr q \<and> map fst q = map fst weights
                 \<and> (\<forall>(c, v) \<in> set q. v = 0)))
       \<and> (sum_list (map snd weights) \<noteq> 0 \<and> 0 < n_total \<longrightarrow>
            (\<exists>q. proportional_quotas weights n_total = Inr q \<and> map fst q = map fst weights
                 \<and> (\<forall>(c, v) \<in> set q. 0 \<le> v) \<and> sum_list (map snd q) = n_total))"
proof (intro conjI impI)
  assume "sum_list (map snd weights) = 0 \<or> n_total \<le> 0"
  then have "proportional_quotas weights n_total = Inr (map (\<lambda>(c, w). (c, 0)) weights)"
    using assms(1) by (rule zero_quotas [rotated])
  moreover have "map fst (map (\<lambda>(c, w). (c, 0::int)) weights) = map fst weights"
    by (rule map_fst_kv)
  moreover have "\<forall>(c, v) \<in> set (map (\<lambda>(c, w). (c, 0::int)) weights). v = 0" by auto
  ultimately show "\<exists>q. proportional_quotas weights n_total = Inr q \<and> map fst q = map fst weights
                 \<and> (\<forall>(c, v) \<in> set q. v = 0)" by blast
next
  assume a: "sum_list (map snd weights) \<noteq> 0 \<and> 0 < n_total"
  then have T: "sum_list (map snd weights) \<noteq> 0" and n: "0 < n_total" by simp_all
  from quotas_rule [OF assms(1,2) T n assms(3)] obtain q where
    q: "proportional_quotas weights n_total = Inr q" "map fst q = map fst weights" "sum_list (map snd q) = n_total"
    and pt: "\<forall>(c, w) \<in> set weights. map_of q c =
           Some (\<lfloor>double_share weights n_total w\<rfloor>
                 + (if int (length (filter (\<lambda>x. outranks weights n_total x (c, w)) weights)) < floor_remainder weights n_total then 1 else 0))"
    by blast
  have "0 \<le> v" if cv: "(c, v) \<in> set q" for c v
  proof -
    have "c \<in> set (map fst weights)" using cv q(2) by (metis fst_conv image_eqI list.set_map)
    then obtain w where cw: "(c, w) \<in> set weights" by auto
    have "distinct (map fst q)" using q(2) assms(1) by simp
    then have "map_of q c = Some v" using cv by (rule map_of_is_SomeI)
    with pt cw have v: "v = \<lfloor>double_share weights n_total w\<rfloor>
                 + (if int (length (filter (\<lambda>x. outranks weights n_total x (c, w)) weights)) < floor_remainder weights n_total then 1 else 0)"
      by auto
    have "0 \<le> \<lfloor>double_share weights n_total w\<rfloor>"
      using assms(2) T n assms(3) cw by (rule bounded_shares(3))
    then show ?thesis using v by simp
  qed
  then have "\<forall>(c, v) \<in> set q. 0 \<le> v" by auto
  with q show "\<exists>q. proportional_quotas weights n_total = Inr q \<and> map fst q = map fst weights
                 \<and> (\<forall>(c, v) \<in> set q. 0 \<le> v) \<and> sum_list (map snd q) = n_total" by blast
qed

text \<open>The specification's example: weights romantic 5, scenic 3, cafes 2 and five slots.\<close>

lemma couple_quotas:
  "proportional_quotas [(''romantic'', 5), (''scenic'', 3), (''cafes'', 2)] 5
     = Inr [(''romantic'', 2), (''scenic'', 2), (''cafes'', 1)]"
  by code_simp

text \<open>Claim C1 at the example weights, with five slots and with none.\<close>

theorem proportional_quotas_sums_to_n_total_witness:
  "(\<exists>q. proportional_quotas [(''romantic'', 5), (''scenic'', 3), (''cafes'', 2)] 5 = Inr q
        \<and> list_all (\<lambda>(c, v). 0 \<le> v) q \<and> sum_list (map snd q) = 5)
   \<and> (\<exists>q. proportional_quotas [(''romantic'', 5), (''scenic'', 3), (''cafes'', 2)] 0 = Inr q
        \<and> map fst q = [''romantic'', ''scenic'', ''cafes''] \<and> list_all (\<lambda>(c, v). v = 0) q)"
  using proportional_quotas_sums_to_n_total [of "[(''romantic'', 5), (''scenic'', 3), (''cafes'', 2)]" 5]
    proportional_quotas_sums_to_n_total [of "[(''romantic'', 5), (''scenic'', 3), (''cafes'', 2)]" 0]
  by (auto simp: list_all_iff)

text \<open>
  Claim C1 as stated, for every \<open>n_total\<close>, does not hold.  With the single
  weight 1 and \<open>n_total = 2 ^ 53 + 3\<close> the share \<open>n_total / 1\<close> is not a double; the
  division yields the double \<open>2 ^ 53 + 4\<close>, the remainder is \<open>- 1\<close>, and the quota
  returned, \<open>2 ^ 53 + 4\<close>, is not \<open>n_total\<close>.
\<close>

theorem proportional_quotas_inexact_share_counterexample:
  "proportional_quotas [(''a'', 1)] 9007199254740995 = Inr [(''a'', 9007199254740996)]"
  by code_simp

text \<open>
  And a share too large for a double makes the division raise: with the single
  weight 1, every \<open>n_total\<close> of \<open>2 ^ 1024\<close> or more ends in \<^verbatim>\<open>OverflowError\<close>.
\<close>

lemma proportional_quotas_overflow:
  assumes "0 < w" and "2 ^ 1024 \<le> n"
  shows "proportional_quotas [(c, w)] n = Inl OverflowError"
proof -
  have "2 ^ 1024 * w \<le> n * w" using assms by (intro mult_right_mono) simp_all
  with assms(1) have "int_true_div (n * w) w = Inl OverflowError" by (rule int_true_div_overflow)
  moreover have "0 < n" using assms(2) by (rule less_le_trans [rotated]) simp
  ultimately show ?thesis using assms(1) by (simp add: proportional_quotas_def raw_shares_def)
qed

subsection \<open>Who receives the remainder\<close>

text \<open>
  Claim C2, as the code has it, for totals within the range of exact shares.
  After the floors are taken, the remainder \<open>n_total - sum(base)\<close> is handed out
  one unit each to the categories with the largest fractional part of the share,
  share and fractional part being the doubles the code computes, and among equal
  fractional parts to the \<^emph>\<open>later\<close> name first (the tuples \<open>(fraction, name)\<close> are
  sorted in descending order): a category receives a unit exactly when fewer
  categories outrank it than there are units.
\<close>

theorem proportional_quotas_largest_remainder:
  fixes weights :: "(string \<times> int) list"
  assumes "distinct (map fst weights)" and "\<forall>(c, w) \<in> set weights. 0 \<le> w"
    and "sum_list (map snd weights) \<noteq> 0" and "0 < n_total"
    and "n_total * sum_list (map snd weights) < 2 ^ 53"
  shows "\<exists>q. proportional_quotas weights n_total = Inr q \<and> map fst q = map fst weights
     \<and> (\<forall>(c, w) \<in> set weights. map_of q c =
           Some (\<lfloor>double_share weights n_total w\<rfloor>
                 + (if int (length (filter (\<lambda>x. outranks weights n_total x (c, w)) weights))
                        < floor_remainder weights n_total then 1 else 0)))"
  using quotas_rule [OF assms] by blast

text \<open>
  At the example weights the shares are 2.5, 1.5 and 1, one unit remains, and it
  goes to scenic, which outranks romantic by name: the quotas are 2, 2 and 1.
  With the weights temples 4, cafes 1, parks 1 and two slots, the three shares
  have the same exact fractional part, a third, but the doubles computed are
  0.33333333333333326 for temples and 0.3333333333333333 for cafes and parks:
  the one unit that remains goes to parks.
\<close>

theorem proportional_quotas_largest_remainder_witness:
  "(\<exists>q. proportional_quotas [(''romantic'', 5), (''scenic'', 3), (''cafes'', 2)] 5 = Inr q
      \<and> map_of q ''romantic'' = Some 2 \<and> map_of q ''scenic'' = Some 2 \<and> map_of q ''cafes'' = Some 1)
   \<and> (\<exists>q. proportional_quotas [(''temples'', 4), (''cafes'', 1), (''parks'', 1)] 2 = Inr q
      \<and> map_of q ''temples'' = Some 1 \<and> map_of q ''cafes'' = Some 0 \<and> map_of q ''parks'' = Some 1)"
proof -
  let ?ws = "[(''romantic'', 5), (''scenic'', 3), (''cafes'', 2)] :: (string \<times> int) list"
  let ?ts = "[(''temples'', 4), (''cafes'', 1), (''parks'', 1)] :: (string \<times> int) list"
  have r: "floor_remainder ?ws 5 = 1"
    by code_simp
  have f: "double_frac (double_share ?ws 5 5) = 1 / 2" "double_frac (double_share ?ws 5 3) = 1 / 2"
      "double_frac (double_share ?ws 5 2) = 0"
    by code_simp+
  have fl: "\<lfloor>double_share ?ws 5 5\<rfloor> = 2" "\<lfloor>double_share ?ws 5 3\<rfloor> = 1" "\<lfloor>double_share ?ws 5 2\<rfloor> = 1"
    by code_simp+
  have lt: "''romantic'' < ''scenic''" "\<not> ''scenic'' < ''romantic''" by code_simp+
  from proportional_quotas_largest_remainder [of ?ws 5]
  have "\<exists>q. proportional_quotas ?ws 5 = Inr q \<and> map fst q = [''romantic'', ''scenic'', ''cafes'']
      \<and> map_of q ''romantic'' = Some 2 \<and> map_of q ''scenic'' = Some 2 \<and> map_of q ''cafes'' = Some 1"
    by (simp add: r f fl lt outranks_def)
  then have 1: "\<exists>q. proportional_quotas ?ws 5 = Inr q
      \<and> map_of q ''romantic'' = Some 2 \<and> map_of q ''scenic'' = Some 2 \<and> map_of q ''cafes'' = Some 1"
    by blast
  have r': "floor_remainder ?ts 2 = 1"
    by code_simp
  have f': "double_frac (double_share ?ts 2 4) = 6004799503160660 / 18014398509481984"
      "double_frac (double_share ?ts 2 1) = 6004799503160661 / 18014398509481984"
    by code_simp+
  have fl': "\<lfloor>double_share ?ts 2 4\<rfloor> = 1" "\<lfloor>double_share ?ts 2 1\<rfloor> = 0"
    by code_simp+
  have lt': "''cafes'' < ''parks''" "\<not> ''parks'' < ''cafes''" by code_simp+
  from proportional_quotas_largest_remainder [of ?ts 2]
  have "\<exists>q. proportional_quotas ?ts 2 = Inr q \<and> map fst q = [''temples'', ''cafes'', ''parks'']
      \<and> map_of q ''temples'' = Some 1 \<and> map_of q ''cafes'' = Some 0 \<and> map_of q ''parks'' = Some 1"
    by (simp add: r' f' fl' lt' outranks_def)
  then have 2: "\<exists>q. proportional_quotas ?ts 2 = Inr q
      \<and> map_of q ''temples'' = Some 1 \<and> map_of q ''cafes'' = Some 0 \<and> map_of q ''parks'' = Some 1"
    by blast
  from 1 2 show ?thesis by blast
qed

text \<open>
  Claim C2 as stated (ties by ascending name, quotas romantic 3 and scenic 2)
  does not hold of the code at the example weights.
\<close>

theorem proportional_quotas_couple_counterexample:
  "\<not> (\<exists>q. proportional_quotas [(''romantic'', 5), (''scenic'', 3), (''cafes'', 2)] 5 = Inr q
         \<and> map_of q ''romantic'' = Some 3 \<and> map_of q ''scenic'' = Some 2)"
  by (simp add: couple_quotas)

section \<open>Verification of build_weighted_sequence\<close>

subsection \<open>One placement\<close>

declare seq_loop.simps [simp del]

lemma py_max_by_in: "py_max_by f best xs \<in> set (best # xs)"
  by (induction xs arbitrary: best) auto

lemma find_SomeD: "find P xs = Some x \<Longrightarrow> x \<in> set xs \<and> P x"
  by (induction xs) (auto split: if_splits)

lemma set_delete: "set (AList.delete k al) = {p \<in> set al. fst p \<noteq> k}"
  by (induction al) auto

lemma set_update_sub: "set (AList.update k v al) \<subseteq> insert (k, v) (set al)"
  by (induction al) auto

lemma pick_in: "quotas \<noteq> [] \<Longrightarrow> pick weight_map quotas last_cat \<in> set quotas"
proof -
  assume ne: "quotas \<noteq> []"
  show ?thesis
  proof (cases "find (\<lambda>(cat, q). Some cat \<noteq> last_cat \<and> 0 < q) (sort_key (cand_key weight_map) quotas)")
    case None
    then have "pick weight_map quotas last_cat = py_max_by (max_key weight_map) (hd quotas) (tl quotas)"
      by (simp add: pick_def)
    moreover have "py_max_by (max_key weight_map) (hd quotas) (tl quotas) \<in> set (hd quotas # tl quotas)"
      by (rule py_max_by_in)
    ultimately show ?thesis using ne by simp
  next
    case (Some kv)
    then have "kv \<in> set (sort_key (cand_key weight_map) quotas)"
      by (auto dest: find_SomeD)
    then show ?thesis using Some by (simp add: pick_def)
  qed
qed

lemma pick_repeat_forced:
  assumes "pick weight_map quotas last_cat = (cat, q)" and "Some cat = last_cat"
    and "(k, v) \<in> set quotas" and "0 < v"
  shows "k = cat"
proof (cases "find (\<lambda>(cat, q). Some cat \<noteq> last_cat \<and> 0 < q) (sort_key (cand_key weight_map) quotas)")
  case None
  then have "\<not> (Some k \<noteq> last_cat \<and> 0 < v)"
    using assms(3) by (auto simp: find_None_iff)
  then show ?thesis using assms(2,4) by auto
next
  case (Some kv)
  then have "kv = (cat, q)" using assms(1) by (simp add: pick_def)
  moreover have "(\<lambda>(cat, q). Some cat \<noteq> last_cat \<and> 0 < q) kv"
    using find_SomeD [OF Some] by simp
  ultimately show ?thesis using assms(2) by simp
qed

lemma sum_update_present:
  "map_of al k = Some q \<Longrightarrow> sum_list (map snd (AList.update k v al)) = sum_list (map snd al) - q + (v :: int)"
  by (induction al) (auto split: if_splits)

lemma sum_delete_present:
  "map_of al k = Some q \<Longrightarrow> distinct (map fst al) \<Longrightarrow>
   sum_list (map snd (AList.delete k al)) = sum_list (map snd al) - (q :: int)"
proof (induction al)
  case Nil then show ?case by simp
next
  case (Cons a al)
  show ?case
  proof (cases "fst a = k")
    case True
    then have "k \<notin> fst ` set al" using Cons.prems(2) by auto
    then have "AList.delete k al = al" by (simp add: delete_id)
    then show ?thesis using True Cons.prems(1) by (cases a) simp
  next
    case False
    then show ?thesis using Cons by (cases a) auto
  qed
qed

lemma dec_quota_props:
  assumes d: "distinct (map fst quotas)" and pos: "\<forall>(c, v) \<in> set quotas. 0 < v"
    and mem: "(cat, q) \<in> set quotas"
  shows "distinct (map fst (dec_quota cat q quotas))"
    and "\<forall>(c, v) \<in> set (dec_quota cat q quotas). 0 < v"
    and "sum_list (map snd (dec_quota cat q quotas)) = sum_list (map snd quotas) - 1"
proof -
  have m: "map_of quotas cat = Some q" using d mem by (rule map_of_is_SomeI)
  let ?u = "AList.update cat (q - 1) quotas"
  have du: "distinct (map fst ?u)" using d by (rule distinct_update)
  have mu: "map_of ?u cat = Some (q - 1)" by (simp add: update_conv')
  have su: "sum_list (map snd ?u) = sum_list (map snd quotas) - 1"
    using sum_update_present [OF m, of "q - 1"] by simp
  have setu: "set ?u \<subseteq> set quotas \<union> {(cat, q - 1)}"
    using set_update_sub [of cat "q - 1" quotas] by auto
  show "distinct (map fst (dec_quota cat q quotas))"
    using du by (simp add: dec_quota_def Let_def distinct_delete)
  show "sum_list (map snd (dec_quota cat q quotas)) = sum_list (map snd quotas) - 1"
  proof (cases "q - 1 \<le> 0")
    case True
    have "0 < q" using pos mem by auto
    with True have q1: "q - 1 = 0" by simp
    have "sum_list (map snd (AList.delete cat ?u)) = sum_list (map snd ?u) - (q - 1)"
      using mu du by (rule sum_delete_present)
    then show ?thesis using True su q1 by (simp add: dec_quota_def Let_def)
  next
    case False
    then show ?thesis using su by (simp add: dec_quota_def Let_def)
  qed
  show "\<forall>(c, v) \<in> set (dec_quota cat q quotas). 0 < v"
  proof (cases "q - 1 \<le> 0")
    case True
    have "0 < v" if "(c, v) \<in> set (AList.delete cat ?u)" for c v
    proof -
      from that have "(c, v) \<in> set ?u" "c \<noteq> cat" by (auto simp: set_delete)
      with setu have "(c, v) \<in> set quotas" by auto
      with pos show ?thesis by auto
    qed
    then show ?thesis using True by (auto simp: dec_quota_def Let_def)
  next
    case False
    have "0 < v" if "(c, v) \<in> set ?u" for c v
      using that setu pos False by auto
    then show ?thesis using False by (auto simp: dec_quota_def Let_def)
  qed
qed

lemma seq_loop_stop:
  "\<not> (length result < n_keep \<and> quotas \<noteq> []) \<Longrightarrow> seq_loop n_keep weight_map quotas result last_cat = result"
  by (subst seq_loop.simps) (rule if_not_P)

lemma seq_loop_length:
  "distinct (map fst quotas) \<Longrightarrow> \<forall>(c, v) \<in> set quotas. 0 < v \<Longrightarrow> length result \<le> n_keep \<Longrightarrow>
   length (seq_loop n_keep weight_map quotas result last_cat)
     = min n_keep (length result + nat (sum_list (map snd quotas)))"
proof (induction n_keep weight_map quotas result last_cat rule: seq_loop.induct)
  case (1 n_keep weight_map quotas result last_cat)
  show ?case
  proof (cases "length result < n_keep \<and> quotas \<noteq> []")
    case False
    then have r: "seq_loop n_keep weight_map quotas result last_cat = result"
      by (rule seq_loop_stop)
    from False have "n_keep \<le> length result \<or> quotas = []" by auto
    then show ?thesis using r "1.prems"(3) by auto
  next
    case True
    obtain cat q where p: "pick weight_map quotas last_cat = (cat, q)"
      by (cases "pick weight_map quotas last_cat")
    have mem: "(cat, q) \<in> set quotas" using pick_in [of quotas weight_map last_cat] True p by simp
    note dq = dec_quota_props [OF "1.prems"(1,2) mem]
    have r: "seq_loop n_keep weight_map quotas result last_cat
        = seq_loop n_keep weight_map (dec_quota cat q quotas) (result @ [cat]) (Some cat)"
      using True p by (subst seq_loop.simps) simp
    have "length (seq_loop n_keep weight_map (dec_quota cat q quotas) (result @ [cat]) (Some cat))
        = min n_keep (length (result @ [cat]) + nat (sum_list (map snd (dec_quota cat q quotas))))"
      using True by (intro "1.IH" [OF True p [symmetric]] dq) simp
    moreover have "0 \<le> sum_list (map snd (dec_quota cat q quotas))"
      using dq(2) by (intro sum_list_nonneg) auto
    ultimately show ?thesis using r dq(3) by (simp add: nat_diff_distrib)
  qed
qed

lemma map_of_pos_list_all:
  "(\<And>k v. (k, v) \<in> set quotas \<Longrightarrow> k = c) \<Longrightarrow> list_all (\<lambda>(k, v). k = c) quotas"
  by (auto simp: list_all_iff)

lemma seq_loop_forced:
  "distinct (map fst quotas) \<Longrightarrow> \<forall>(c, v) \<in> set quotas. 0 < v \<Longrightarrow>
   \<exists>new. seq_loop n_keep weight_map quotas result last_cat = result @ new \<and> forced_only quotas last_cat new"
proof (induction n_keep weight_map quotas result last_cat rule: seq_loop.induct)
  case (1 n_keep weight_map quotas result last_cat)
  show ?case
  proof (cases "length result < n_keep \<and> quotas \<noteq> []")
    case False
    then have "seq_loop n_keep weight_map quotas result last_cat = result @ []"
      by (simp add: seq_loop_stop)
    then show ?thesis by (metis forced_only.simps(1))
  next
    case True
    obtain cat q where p: "pick weight_map quotas last_cat = (cat, q)"
      by (cases "pick weight_map quotas last_cat")
    have mem: "(cat, q) \<in> set quotas" using pick_in [of quotas weight_map last_cat] True p by simp
    have m: "map_of quotas cat = Some q" using "1.prems"(1) mem by (rule map_of_is_SomeI)
    note dq = dec_quota_props [OF "1.prems"(1,2) mem]
    have r: "seq_loop n_keep weight_map quotas result last_cat
        = seq_loop n_keep weight_map (dec_quota cat q quotas) (result @ [cat]) (Some cat)"
      using True p by (subst seq_loop.simps) simp
    from "1.IH" [OF True p [symmetric] dq(1,2)] obtain new where
      new: "seq_loop n_keep weight_map (dec_quota cat q quotas) (result @ [cat]) (Some cat) = (result @ [cat]) @ new"
        "forced_only (dec_quota cat q quotas) (Some cat) new"
      by blast
    have forced: "list_all (\<lambda>(k, v). k = cat) quotas" if "Some cat = last_cat"
    proof (rule map_of_pos_list_all)
      fix k v assume kv: "(k, v) \<in> set quotas"
      then have "0 < v" using "1.prems"(2) by auto
      with pick_repeat_forced [OF p that kv] show "k = cat" .
    qed
    have "forced_only quotas last_cat (cat # new)"
      using m new(2) forced by simp
    moreover have "seq_loop n_keep weight_map quotas result last_cat = result @ (cat # new)"
      using r new(1) by simp
    ultimately show ?thesis by blast
  qed
qed

lemma group_max_distinct: "distinct (map fst (group_max rows))"
proof -
  have "distinct (map fst acc) \<Longrightarrow>
        distinct (map fst (fold (\<lambda>r acc. case map_of acc (cat_norm r) of
                      None \<Rightarrow> acc @ [(cat_norm r, weight r)]
                    | Some v \<Rightarrow> AList.update (cat_norm r) (max v (weight r)) acc) rows acc))" for acc
  proof (induction rows arbitrary: acc)
    case Nil then show ?case by simp
  next
    case (Cons r rows)
    have "distinct (map fst (case map_of acc (cat_norm r) of
                      None \<Rightarrow> acc @ [(cat_norm r, weight r)]
                    | Some v \<Rightarrow> AList.update (cat_norm r) (max v (weight r)) acc))"
      using Cons.prems by (auto split: option.splits simp: distinct_update map_of_eq_None_iff)
    from Cons.IH [OF this] show ?case by simp
  qed
  from this [of "[]"] show ?thesis by (simp add: group_max_def)
qed

lemma distinct_map_mset: "mset xs = mset ys \<Longrightarrow> distinct (map f xs) = distinct (map f ys)"
proof -
  assume "mset xs = mset ys"
  then have "mset (map f xs) = mset (map f ys)" by simp
  then show ?thesis by (rule mset_eq_imp_distinct_iff)
qed

lemma cat_weights_distinct: "distinct (map fst (cat_weights rows))"
proof -
  have "mset (cat_weights rows) = mset (group_max rows)" by (simp add: cat_weights_def)
  from distinct_map_mset [OF this] show ?thesis using group_max_distinct by blast
qed

lemma sum_filter_pos:
  "sum_list (map snd xs) \<le> sum_list (map snd (filter (\<lambda>(c, v). 0 < v) xs))"
  for xs :: "('a \<times> int) list"
  by (induction xs) auto

lemma filter_pos_props:
  fixes q :: "(string \<times> int) list"
  assumes "distinct (map fst q)"
  shows "dict_of (filter (\<lambda>(c, v). 0 < v) q) = filter (\<lambda>(c, v). 0 < v) q"
    and "distinct (map fst (filter (\<lambda>(c, v). 0 < v) q))"
    and "\<forall>(c, v) \<in> set (filter (\<lambda>(c, v). 0 < v) q). 0 < v"
proof -
  show d: "distinct (map fst (filter (\<lambda>(c, v). 0 < v) q))"
    using assms by (rule distinct_map_filter)
  then show "dict_of (filter (\<lambda>(c, v). 0 < v) q) = filter (\<lambda>(c, v). 0 < v) q"
    by (rule dict_of_distinct)
  show "\<forall>(c, v) \<in> set (filter (\<lambda>(c, v). 0 < v) q). 0 < v" by auto
qed

lemma proportional_quotas_keys:
  fixes ws :: "(string \<times> int) list"
  assumes d: "distinct (map fst ws)" and r: "proportional_quotas ws n = Inr q"
  shows "map fst q = map fst ws"
  using d r by (rule proportional_quotas_returned(1))

lemma build_unfold:
  assumes tp: "tprefs PREFS ttype \<noteq> []" and n: "0 < days * 3 - 1"
    and r: "proportional_quotas (cat_weights (tprefs PREFS ttype)) (days * 3 - 1) = Inr q"
  shows "build_weighted_sequence PREFS ttype days
     = Inr (take (nat (days * 3 - 1))
         (seq_loop (nat (days * 3 - 1))
            (dict_of (map (\<lambda>(c, w). (KStr c, w)) (cat_weights (tprefs PREFS ttype))))
            (filter (\<lambda>(c, v). 0 < v) q) [] None))"
proof -
  have m: "max (days * 3 - 1) 0 = days * 3 - 1" using n by simp
  have dq: "distinct (map fst q)"
    using proportional_quotas_keys [OF cat_weights_distinct r] cat_weights_distinct [of "tprefs PREFS ttype"]
    by simp
  show ?thesis
    using tp n
    by (simp add: build_weighted_sequence_def Let_def m r filter_pos_props(1) [OF dq] py_take_def)
qed

subsection \<open>Adjacent repeats\<close>

text \<open>
  Claim C4.  Replayed against the positive quotas it was built from, a sequence
  returned by \<open>build_weighted_sequence\<close> repeats the entry placed just before
  only at a step where every category with quota left is that entry: no two
  adjacent entries are equal unless the repeat is unavoidable.
\<close>

theorem build_weighted_sequence_repeats_only_forced:
  assumes b: "build_weighted_sequence PREFS ttype days = Inr seq"
    and r: "proportional_quotas (cat_weights (tprefs PREFS ttype)) (days * 3 - 1) = Inr quotas"
  shows "forced_only (filter (\<lambda>(c, q). 0 < q) quotas) None seq"
proof (cases "tprefs PREFS ttype \<noteq> [] \<and> 0 < days * 3 - 1")
  case False
  then have "build_weighted_sequence PREFS ttype days = Inr []"
    by (auto simp: build_weighted_sequence_def Let_def)
  with b show ?thesis by simp
next
  case True
  let ?n = "nat (days * 3 - 1)"
  let ?wm = "dict_of (map (\<lambda>(c, w). (KStr c, w)) (cat_weights (tprefs PREFS ttype)))"
  let ?f = "filter (\<lambda>(c, q). 0 < q) quotas"
  have dq: "distinct (map fst quotas)"
    using proportional_quotas_keys [OF cat_weights_distinct r] cat_weights_distinct [of "tprefs PREFS ttype"]
    by simp
  note fp = filter_pos_props [OF dq]
  from build_unfold [OF _ _ r] True b
  have s: "seq = take ?n (seq_loop ?n ?wm ?f [] None)" by simp
  have "length (seq_loop ?n ?wm ?f [] None) \<le> ?n"
    using seq_loop_length [OF fp(2,3), of "[]" ?n ?wm None] by simp
  then have s': "seq = seq_loop ?n ?wm ?f [] None" using s by simp
  from seq_loop_forced [OF fp(2,3), of ?n ?wm "[]" None] show ?thesis
    unfolding s' by auto
qed

subsection \<open>Length of the sequence\<close>

lemma build_raises:
  assumes tp: "tprefs PREFS ttype \<noteq> []" and n: "0 < days * 3 - 1"
    and r: "proportional_quotas (cat_weights (tprefs PREFS ttype)) (days * 3 - 1) = Inl e"
  shows "build_weighted_sequence PREFS ttype days = Inl e"
proof -
  have m: "max (days * 3 - 1) 0 = days * 3 - 1" using n by simp
  show ?thesis using tp n by (simp add: build_weighted_sequence_def Let_def m r)
qed

lemma build_length:
  assumes tp: "tprefs PREFS ttype \<noteq> []" and n: "0 < days * 3 - 1"
    and r: "proportional_quotas (cat_weights (tprefs PREFS ttype)) (days * 3 - 1) = Inr q"
    and s: "days * 3 - 1 \<le> sum_list (map snd q)"
  shows "\<exists>seq. build_weighted_sequence PREFS ttype days = Inr seq \<and> int (length seq) = days * 3 - 1"
proof -
  let ?ws = "cat_weights (tprefs PREFS ttype)"
  let ?n = "nat (days * 3 - 1)"
  let ?wm = "dict_of (map (\<lambda>(c, w). (KStr c, w)) ?ws)"
  let ?f = "filter (\<lambda>(c, v). 0 < v) q"
  have "map fst q = map fst ?ws" using cat_weights_distinct r by (rule proportional_quotas_keys)
  then have dq: "distinct (map fst q)" using cat_weights_distinct [of "tprefs PREFS ttype"] by simp
  note fp = filter_pos_props [OF dq]
  have ge: "days * 3 - 1 \<le> sum_list (map snd ?f)" using sum_filter_pos [of q] s by simp
  have len: "length (seq_loop ?n ?wm ?f [] None) = ?n"
    using seq_loop_length [OF fp(2,3), of "[]" ?n ?wm None] ge by simp
  have "build_weighted_sequence PREFS ttype days = Inr (seq_loop ?n ?wm ?f [] None)"
    using build_unfold [OF tp n r] len by simp
  with len n show ?thesis by simp
qed

text \<open>
  Claim C3, with what the doubles leave of it.  For a traveler type that has rows
  in the preference table, with positive total weight, and \<open>days \<ge> 1\<close>: every
  sequence that \<open>build_weighted_sequence\<close> returns has length \<open>days * 3 - 1\<close>; and
  when the weights are non-negative and \<open>days * 3 - 1\<close> times the total weight is
  below \<open>2 ^ 53\<close>, the call does return, the quotas sum to \<open>days * 3 - 1\<close>, and the
  sequence has that length.
\<close>

theorem build_weighted_sequence_length:
  assumes tp: "tprefs PREFS ttype \<noteq> []"
    and T: "0 < sum_list (map snd (cat_weights (tprefs PREFS ttype)))"
    and days: "1 \<le> days"
  shows "(\<forall>seq. build_weighted_sequence PREFS ttype days = Inr seq \<longrightarrow> int (length seq) = days * 3 - 1)
     \<and> ((\<forall>(c, w) \<in> set (cat_weights (tprefs PREFS ttype)). 0 \<le> w)
          \<and> (days * 3 - 1) * sum_list (map snd (cat_weights (tprefs PREFS ttype))) < 2 ^ 53 \<longrightarrow>
        (\<exists>seq q. build_weighted_sequence PREFS ttype days = Inr seq
           \<and> proportional_quotas (cat_weights (tprefs PREFS ttype)) (days * 3 - 1) = Inr q
           \<and> sum_list (map snd q) = days * 3 - 1
           \<and> int (length seq) = days * 3 - 1))"
proof (intro conjI allI impI)
  let ?ws = "cat_weights (tprefs PREFS ttype)"
  have n: "0 < days * 3 - 1" using days by simp
  have T0: "sum_list (map snd ?ws) \<noteq> 0" using T by simp
  {
    fix seq assume b: "build_weighted_sequence PREFS ttype days = Inr seq"
    show "int (length seq) = days * 3 - 1"
    proof (cases "proportional_quotas ?ws (days * 3 - 1)")
      case (Inl e)
      from build_raises [OF tp n Inl] b show ?thesis by simp
    next
      case (Inr q)
      have "days * 3 - 1 \<le> sum_list (map snd q)"
        using cat_weights_distinct Inr T0 n by (rule proportional_quotas_returned(2))
      from build_length [OF tp n Inr this] b show ?thesis by simp
    qed
  }
  {
    assume a: "(\<forall>(c, w) \<in> set ?ws. 0 \<le> w) \<and> (days * 3 - 1) * sum_list (map snd ?ws) < 2 ^ 53"
    then have nn: "\<forall>(c, w) \<in> set ?ws. 0 \<le> w" and bd: "(days * 3 - 1) * sum_list (map snd ?ws) < 2 ^ 53"
      by simp_all
    from quotas_rule [OF cat_weights_distinct nn T0 n bd] obtain q where
      q: "proportional_quotas ?ws (days * 3 - 1) = Inr q" "sum_list (map snd q) = days * 3 - 1"
      by blast
    from build_length [OF tp n q(1)] q(2) obtain seq where
      "build_weighted_sequence PREFS ttype days = Inr seq" "int (length seq) = days * 3 - 1"
      by auto
    with q show "\<exists>seq q. build_weighted_sequence PREFS ttype days = Inr seq
           \<and> proportional_quotas ?ws (days * 3 - 1) = Inr q
           \<and> sum_list (map snd q) = days * 3 - 1
           \<and> int (length seq) = days * 3 - 1" by blast
  }
qed

subsection \<open>The example tables\<close>

lemma couple_weights:
  "cat_weights (tprefs couple_prefs ''couple'') = [(''romantic'', 5), (''scenic'', 3), (''cafes'', 2)]"
  by code_simp

lemma couple_sequence:
  "build_weighted_sequence couple_prefs ''couple'' 2
     = Inr [''romantic'', ''scenic'', ''cafes'', ''romantic'', ''scenic'']"
  by code_simp

lemma solo_weights: "cat_weights (tprefs solo_prefs ''solo'') = [(''museums'', 4)]"
  by code_simp

lemma solo_quotas: "proportional_quotas [(''museums'', 4)] 2 = Inr [(''museums'', 2)]"
  by code_simp

lemma solo_sequence: "build_weighted_sequence solo_prefs ''solo'' 1 = Inr [''museums'', ''museums'']"
  by code_simp

text \<open>Claim C3 at the example: two days for a couple give five entries.\<close>

theorem build_weighted_sequence_length_witness:
  "\<exists>seq. build_weighted_sequence couple_prefs ''couple'' 2 = Inr seq \<and> length seq = 5"
proof -
  have "tprefs couple_prefs ''couple'' \<noteq> []" using couple_weights by (auto simp: cat_weights_def group_max_def)
  moreover have "0 < sum_list (map snd (cat_weights (tprefs couple_prefs ''couple'')))"
    by (simp add: couple_weights)
  ultimately show ?thesis
    using build_weighted_sequence_length [of couple_prefs "''couple''" 2] by (auto simp: couple_weights)
qed

text \<open>
  Claim C3 as stated, for every number of days, does not hold: the shares are
  doubles, and with the single category museums and \<open>10 ^ 400\<close> days the division
  \<open>(n_keep * 4) / 4\<close> has no double to return.  The call raises \<^verbatim>\<open>OverflowError\<close>
  and no sequence is returned.
\<close>

theorem build_weighted_sequence_overflow_counterexample:
  "build_weighted_sequence solo_prefs ''solo'' (10 ^ 400) = Inl OverflowError"
proof -
  have tp: "tprefs solo_prefs ''solo'' \<noteq> []" using solo_weights by (auto simp: cat_weights_def group_max_def)
  have big: "(2::int) ^ 1024 \<le> 10 ^ 400 * 3 - 1" by simp
  have "(0::int) < 2 ^ 1024" by simp
  with big have n: "(0::int) < 10 ^ 400 * 3 - 1" by linarith
  have "proportional_quotas [(''museums'', 4)] (10 ^ 400 * 3 - 1) = Inl OverflowError"
    using _ big by (rule proportional_quotas_overflow) simp
  then have "proportional_quotas (cat_weights (tprefs solo_prefs ''solo'')) (10 ^ 400 * 3 - 1) = Inl OverflowError"
    by (simp only: solo_weights)
  with tp n show ?thesis by (rule build_raises)
qed

text \<open>
  Claim C4 at the example, where no entry repeats, and at a table with the single
  category museums, where the second entry has to repeat the first.
\<close>

theorem build_weighted_sequence_repeats_only_forced_witness:
  "forced_only [(''romantic'', 2), (''scenic'', 2), (''cafes'', 1)] None
       [''romantic'', ''scenic'', ''cafes'', ''romantic'', ''scenic'']
   \<and> forced_only [(''museums'', 2)] None [''museums'', ''museums'']"
  using build_weighted_sequence_repeats_only_forced [of couple_prefs "''couple''" 2, OF couple_sequence]
    build_weighted_sequence_repeats_only_forced [of solo_prefs "''solo''" 1, OF solo_sequence]
  by (simp add: couple_weights couple_quotas solo_weights solo_quotas)

subsection \<open>Ties between equal quotas\<close>

text \<open>
  Claim C5 says that among the categories with the highest remaining quota the
  one with the higher table weight is chosen, then the one with the earlier name.
  The sort key looks the item \<open>(cat, q)\<close> up in \<open>weight_map\<close>, whose keys are
  names, so the lookup always yields the default and the second component of
  every key is \<open>+inf\<close>: ties fall through to the name.  In the example, the third
  placement follows scenic with romantic, scenic and cafes all at quota 1;
  romantic has weight 5 and cafes weight 2, and cafes is placed.
\<close>

theorem build_weighted_sequence_ignores_weight_on_ties:
  "build_weighted_sequence couple_prefs ''couple'' 2
     = Inr [''romantic'', ''scenic'', ''cafes'', ''romantic'', ''scenic'']
   \<and> pick (dict_of [(KStr ''romantic'', 5), (KStr ''scenic'', 3), (KStr ''cafes'', 2)])
        [(''romantic'', 1), (''scenic'', 1), (''cafes'', 1)] (Some ''scenic'') = (''cafes'', 1)
   \<and> cand_key (dict_of [(KStr ''romantic'', 5), (KStr ''scenic'', 3), (KStr ''cafes'', 2)]) (''romantic'', 1)
        = (- 1, PosInf, (''romantic'', 1))"
  by code_simp

section \<open>Verification of prefer_indoor_if_rain\<close>

text \<open>
  Without a forecast, and on a dry day, the list passes through unchanged.  On a
  rainy day a list of at most three categories (what \<open>sequence_to_days\<close> hands
  the assembler) becomes its indoor entries followed by its outdoor entries, each
  group in its own order: a permutation of the input.
\<close>

lemma prefer_indoor_absent: "prefer_indoor_if_rain categories None = categories"
  by (simp add: prefer_indoor_if_rain_def)

lemma prefer_indoor_dry:
  "avg_pop f = Some p \<Longrightarrow> p < 1 / 2 \<Longrightarrow> prefer_indoor_if_rain categories (Some f) = categories"
  by (simp add: prefer_indoor_if_rain_def)

lemma prefer_indoor_rainy:
  "avg_pop f = Some p \<Longrightarrow> 1 / 2 \<le> p \<Longrightarrow>
   prefer_indoor_if_rain categories (Some f)
     = take 3 (filter (\<lambda>c. c \<in> INDOOR_CATS) categories @ filter (\<lambda>c. c \<notin> INDOOR_CATS) categories)
       @ drop 3 categories"
  by (simp add: prefer_indoor_if_rain_def Let_def)

lemma prefer_indoor_short:
  assumes "avg_pop f = Some p" "1 / 2 \<le> p" "length categories \<le> 3"
  shows "prefer_indoor_if_rain categories (Some f)
           = filter (\<lambda>c. c \<in> INDOOR_CATS) categories @ filter (\<lambda>c. c \<notin> INDOOR_CATS) categories"
    and "mset (prefer_indoor_if_rain categories (Some f)) = mset categories"
proof -
  have "length (filter (\<lambda>c. c \<in> INDOOR_CATS) categories @ filter (\<lambda>c. c \<notin> INDOOR_CATS) categories)
      = length categories"
    using sum_length_filter_compl [of "\<lambda>c. c \<in> INDOOR_CATS" categories] by simp
  then show e: "prefer_indoor_if_rain categories (Some f)
           = filter (\<lambda>c. c \<in> INDOOR_CATS) categories @ filter (\<lambda>c. c \<notin> INDOOR_CATS) categories"
    using assms by (simp add: prefer_indoor_rainy)
  show "mset (prefer_indoor_if_rain categories (Some f)) = mset categories"
    unfolding e by simp
qed

text \<open>
  Claim C6 says that on a rainy day the output is a permutation of the input for
  every category list, the entries beyond the third position being left alone.
  The code partitions the whole list before cutting it to three, so on a list of
  four an indoor entry from the fourth position is moved forward and kept at
  its old place as well, and the third entry is lost: here beaches disappears
  and museums occurs twice.
\<close>

theorem prefer_indoor_if_rain_long_list:
  "prefer_indoor_if_rain [''parks'', ''lakes'', ''beaches'', ''museums'']
     (Some \<lparr>date = Some ''2025-06-01'', avg_temp_c = Some 24, avg_pop = Some (9 / 10), condition = Some ''Rain''\<rparr>)
   = [''museums'', ''parks'', ''lakes'', ''museums'']"
  by (simp add: prefer_indoor_if_rain_def INDOOR_CATS_def)

text \<open>
  Claim C10.  The rain decision reads only \<open>avg_pop\<close>: a forecast that is present
  but whose \<open>avg_pop\<close> is \<open>None\<close> leaves the category list unchanged, whatever
  its condition string and other fields are.
\<close>

theorem prefer_indoor_if_rain_needs_avg_pop:
  "avg_pop f = None \<Longrightarrow> prefer_indoor_if_rain categories (Some f) = categories"
  by (simp add: prefer_indoor_if_rain_def)

text \<open>A forecast that carries only the condition string Rain.\<close>

theorem prefer_indoor_if_rain_needs_avg_pop_witness:
  "prefer_indoor_if_rain [''parks'', ''museums'']
     (Some \<lparr>date = Some ''2025-06-01'', avg_temp_c = None, avg_pop = None, condition = Some ''Rain''\<rparr>)
   = [''parks'', ''museums'']"
  using prefer_indoor_if_rain_needs_avg_pop
    [of "\<lparr>date = Some ''2025-06-01'', avg_temp_c = None, avg_pop = None, condition = Some ''Rain''\<rparr>"
        "[''parks'', ''museums'']"]
  by simp

section \<open>The examples, operation by operation\<close>

text \<open>
  Every arithmetic operation that the examples reach, with its result in the
  model, and the distances between the example coordinates that follow.
\<close>

lemma deg_to_rad_value: "round_double (884279719003555 / 281474976710656 / 180) = deg_to_rad"
  by code_simp

lemma glibc_ops:
  "fsub 0 0 = Inr 0"
  "math_radians 0 = Inr 0"
  "fdiv 0 2 = Inr 0"
  "c_sin glibc 0 = 0"
  "float_square glibc 0 = Inr 0"
  "c_cos glibc 0 = 1"
  "fmul 1 1 = Inr 1"
  "fmul 1 0 = Inr 0"
  "fadd 0 0 = Inr 0"
  "math_sqrt glibc 0 = Inr 0"
  "fsub 1 0 = Inr 1"
  "math_sqrt glibc 1 = Inr 1"
  "c_atan2 glibc 0 1 = 0"
  "fmul 12742 0 = Inr 0"
  "fsub 90 0 = Inr 90"
  "math_radians 90 = Inr (884279719003555 / 562949953421312)"
  "fdiv (884279719003555 / 562949953421312) 2 = Inr (884279719003555 / 1125899906842624)"
  "c_sin glibc (884279719003555 / 1125899906842624) = (1592262918131443 / 2251799813685248)"
  "float_square glibc (1592262918131443 / 2251799813685248) = Inr (4503599627370495 / 9007199254740992)"
  "fmul 1 (4503599627370495 / 9007199254740992) = Inr (4503599627370495 / 9007199254740992)"
  "fadd 0 (4503599627370495 / 9007199254740992) = Inr (4503599627370495 / 9007199254740992)"
  "math_sqrt glibc (4503599627370495 / 9007199254740992) = Inr (1592262918131443 / 2251799813685248)"
  "fsub 1 (4503599627370495 / 9007199254740992) = Inr (4503599627370497 / 9007199254740992)"
  "math_sqrt glibc (4503599627370497 / 9007199254740992) = Inr (6369051672525773 / 9007199254740992)"
  "c_atan2 glibc (1592262918131443 / 2251799813685248) (6369051672525773 / 9007199254740992) = (884279719003555 / 1125899906842624)"
  "fmul 12742 (884279719003555 / 1125899906842624) = Inr (2750852582896313 / 274877906944)"
  "fsub 180 0 = Inr 180"
  "math_radians 180 = Inr (884279719003555 / 281474976710656)"
  "fdiv (884279719003555 / 281474976710656) 2 = Inr (884279719003555 / 562949953421312)"
  "c_sin glibc (884279719003555 / 562949953421312) = 1"
  "float_square glibc 1 = Inr 1"
  "fadd 0 1 = Inr 1"
  "fsub 1 1 = Inr 0"
  "c_atan2 glibc 1 0 = (884279719003555 / 562949953421312)"
  "fmul 12742 (884279719003555 / 562949953421312) = Inr (2750852582896313 / 137438953472)"
  "fsub 0 90 = Inr (- 90)"
  "math_radians (- 90) = Inr (- (884279719003555 / 562949953421312))"
  "fdiv (- (884279719003555 / 562949953421312)) 2 = Inr (- (884279719003555 / 1125899906842624))"
  "c_sin glibc (- (884279719003555 / 1125899906842624)) = (- (1592262918131443 / 2251799813685248))"
  "float_square glibc (- (1592262918131443 / 2251799813685248)) = Inr (4503599627370495 / 9007199254740992)"
  "fsub 90 90 = Inr 0"
  "fsub 180 90 = Inr 90"
  "fsub 0 180 = Inr (- 180)"
  "math_radians (- 180) = Inr (- (884279719003555 / 281474976710656))"
  "fdiv (- (884279719003555 / 281474976710656)) 2 = Inr (- (884279719003555 / 562949953421312))"
  "c_sin glibc (- (884279719003555 / 562949953421312)) = (- 1)"
  "float_square glibc (- 1) = Inr 1"
  "fsub 90 180 = Inr (- 90)"
  "fsub 180 180 = Inr 0"
  "fsub (- 8) 8 = Inr (- 16)"
  "math_radians (- 16) = Inr (- (5030569068109113 / 18014398509481984))"
  "fdiv (- (5030569068109113 / 18014398509481984)) 2 = Inr (- (5030569068109113 / 36028797018963968))"
  "c_sin glibc (- (5030569068109113 / 36028797018963968)) = (- (5014239404989977 / 36028797018963968))"
  "float_square glibc (- (5014239404989977 / 36028797018963968)) = Inr (1395694493897217 / 72057594037927936)"
  "math_radians 8 = Inr (5030569068109113 / 36028797018963968)"
  "c_cos glibc (5030569068109113 / 36028797018963968) = (4459770905381437 / 4503599627370496)"
  "math_radians (- 8) = Inr (- (5030569068109113 / 36028797018963968))"
  "c_cos glibc (- (5030569068109113 / 36028797018963968)) = (4459770905381437 / 4503599627370496)"
  "fmul (4459770905381437 / 4503599627370496) (4459770905381437 / 4503599627370496) = Inr (8832737443003841 / 9007199254740992)"
  "fmul (8832737443003841 / 9007199254740992) 1 = Inr (8832737443003841 / 9007199254740992)"
  "fadd (1395694493897217 / 72057594037927936) (8832737443003841 / 9007199254740992) = Inr (4503599627370497 / 4503599627370496)"
  "math_sqrt glibc (4503599627370497 / 4503599627370496) = Inr 1"
  "fsub 1 (4503599627370497 / 4503599627370496) = Inr (- (1 / 4503599627370496))"
  "math_sqrt glibc (- (1 / 4503599627370496)) = Inl ValueError"
  "fsub (2750852582896313 / 137438953472) 0 = Inr (2750852582896313 / 137438953472)"
  "fdiv 0 (2750852582896313 / 137438953472) = Inr 0"
  "fsub 4 (7 / 2) = Inr (1 / 2)"
  "fsub 5 (7 / 2) = Inr (3 / 2)"
  "fdiv (1 / 2) (3 / 2) = Inr (6004799503160661 / 18014398509481984)"
  "fmul d06 (6004799503160661 / 18014398509481984) = Inr (7205759403792793 / 36028797018963968)"
  "fmul d04 1 = Inr (3602879701896397 / 9007199254740992)"
  "fadd (7205759403792793 / 36028797018963968) (3602879701896397 / 9007199254740992) = Inr (5404319552844595 / 9007199254740992)"
  "fsub (2750852582896313 / 274877906944) 0 = Inr (2750852582896313 / 274877906944)"
  "fdiv (2750852582896313 / 274877906944) (2750852582896313 / 137438953472) = Inr (1 / 2)"
  "fsub (7 / 2) (7 / 2) = Inr 0"
  "fdiv 0 (3 / 2) = Inr 0"
  "fmul d06 0 = Inr 0"
  "fsub 1 (1 / 2) = Inr (1 / 2)"
  "fmul d04 (1 / 2) = Inr (3602879701896397 / 18014398509481984)"
  "fadd 0 (3602879701896397 / 18014398509481984) = Inr (3602879701896397 / 18014398509481984)"
  "fdiv (2750852582896313 / 137438953472) (2750852582896313 / 137438953472) = Inr 1"
  "fdiv (3 / 2) (3 / 2) = Inr 1"
  "fmul d06 1 = Inr (5404319552844595 / 9007199254740992)"
  "fmul d04 0 = Inr 0"
  "fadd (5404319552844595 / 9007199254740992) 0 = Inr (5404319552844595 / 9007199254740992)"
  "fadd 0 (3602879701896397 / 9007199254740992) = Inr (3602879701896397 / 9007199254740992)"
  by code_simp+

lemma blend_values:
  "blend (6004799503160661 / 18014398509481984) 0 = Inr (5404319552844595 / 9007199254740992)"
  "blend 0 (1 / 2) = Inr (3602879701896397 / 18014398509481984)"
  "blend 1 1 = Inr (5404319552844595 / 9007199254740992)"
  "blend 0 0 = Inr (3602879701896397 / 9007199254740992)"
  by (simp_all add: blend_def glibc_ops)

lemma glibc_distances:
  "haversine glibc (0, 0) (0, 0) = Inr 0"
  "haversine glibc (0, 0) (0, 90) = Inr (2750852582896313 / 274877906944)"
  "haversine glibc (0, 0) (0, 180) = Inr (2750852582896313 / 137438953472)"
  "haversine glibc (0, 90) (0, 0) = Inr (2750852582896313 / 274877906944)"
  "haversine glibc (0, 90) (0, 90) = Inr 0"
  "haversine glibc (0, 90) (0, 180) = Inr (2750852582896313 / 274877906944)"
  "haversine glibc (0, 180) (0, 0) = Inr (2750852582896313 / 137438953472)"
  "haversine glibc (0, 180) (0, 90) = Inr (2750852582896313 / 274877906944)"
  "haversine glibc (0, 180) (0, 180) = Inr 0"
  "haversine glibc (8, 0) ((- 8), 180) = Inl ValueError"
  by (simp_all add: haversine_def glibc_ops)

section \<open>Verification of nearest_route\<close>

declare nearest_route_loop.simps [simp del]

lemma returns_iff: "returns r \<longleftrightarrow> (\<exists>v. r = Inr v)"
  by (cases r) (simp_all add: returns_def)

lemma distance_of_returns:
  "returns (haversine m cur (lat c, lng c)) \<Longrightarrow> haversine m cur (lat c, lng c) = Inr (distance_of m cur c)"
  by (auto simp: returns_iff distance_of_def)

lemma mapM_dist_places:
  "\<forall>c \<in> set cs. haversine m cur (lat c, lng c) = Inr (g c) \<Longrightarrow>
   mapM (dist_key m cur) (map Place cs) = Inr (map g cs)"
  by (induction cs) (simp_all add: dist_key_def)

lemma py_min_by_least:
  "f (py_min_by f best xs) \<le> f best \<and> (\<forall>x \<in> set xs. f (py_min_by f best xs) \<le> f x)"
proof (induction xs arbitrary: best)
  case Nil
  then show ?case by simp
next
  case (Cons x xs)
  let ?b = "if f x < f best then x else best"
  from Cons.IH [of ?b] have ih: "f (py_min_by f ?b xs) \<le> f ?b"
    "\<forall>y \<in> set xs. f (py_min_by f ?b xs) \<le> f y" by simp_all
  have "f ?b \<le> f best" "f ?b \<le> f x" by auto
  with ih show ?case by (auto simp del: if_split intro: order_trans)
qed

lemma remove1_map_inj: "inj f \<Longrightarrow> remove1 (f x) (map f xs) = map f (remove1 x xs)"
  by (induction xs) (auto dest: injD)

lemma inj_Place: "inj Place"
  by (rule injI) simp

lemma nearest_choice:
  fixes cs :: "candidate list" and g :: "candidate \<Rightarrow> rat"
  assumes "cs = c0 # rest"
  shows "\<exists>c. snd (py_min_by fst (hd (map g cs), Place c0) (zip (tl (map g cs)) (map Place rest))) = Place c
           \<and> c \<in> set cs \<and> (\<forall>p \<in> set cs. g c \<le> g p)"
proof -
  let ?h = "\<lambda>c. (g c, Place c)"
  define m where "m = py_min_by fst (hd (map g cs), Place c0) (zip (tl (map g cs)) (map Place rest))"
  have z: "zip (tl (map g cs)) (map Place rest) = map ?h rest"
    unfolding assms(1) by (induction rest) auto
  have h0: "(hd (map g cs), Place c0) = ?h c0" unfolding assms(1) by simp
  have m': "m = py_min_by fst (?h c0) (map ?h rest)" unfolding m_def z h0 ..
  have hs: "?h c0 # map ?h rest = map ?h cs" unfolding assms(1) by simp
  have "m \<in> set (map ?h cs)"
    unfolding m' hs [symmetric] by (rule py_min_by_mem)
  then obtain c where c: "c \<in> set cs" "m = ?h c" by auto
  have le: "\<forall>x \<in> set (map ?h cs). fst m \<le> fst x"
    using py_min_by_least [of fst "?h c0" "map ?h rest"] unfolding m' hs [symmetric] by simp
  have "g c \<le> g p" if "p \<in> set cs" for p
  proof -
    from that have "?h p \<in> set (map ?h cs)" by simp
    with le have "fst m \<le> fst (?h p)" by blast
    then show ?thesis by (simp add: c(2))
  qed
  moreover have "snd m = Place c" by (simp add: c(2))
  ultimately show ?thesis using c(1) unfolding m_def by blast
qed

lemma nearest_route_loop_step:
  assumes "mapM (dist_key m cur) (p0 # rest) = Inr keys"
    and "snd (py_min_by fst (hd keys, p0) (zip (tl keys) rest)) = nxt"
    and "coords nxt = Inr c"
  shows "nearest_route_loop m cur (p0 # rest) route
           = nearest_route_loop m c (remove1 nxt (p0 # rest)) (route @ [nxt])"
  by (subst nearest_route_loop.simps) (simp only: list.case assms sum.case)

lemma nearest_route_loop_places:
  assumes "\<forall>p \<in> set cs. returns (haversine m cur (lat p, lng p))"
    and "\<forall>q \<in> set cs. \<forall>p \<in> set cs. returns (haversine m (lat q, lng q) (lat p, lng p))"
  shows "\<exists>rt. nearest_route_loop m cur (map Place cs) (map Place r0) = Inr (map Place (r0 @ rt))
        \<and> mset rt = mset cs \<and> greedy_route m cur cs rt"
  using assms
proof (induction "length cs" arbitrary: cs cur r0 rule: less_induct)
  case less
  show ?case
  proof (cases cs)
    case Nil
    have "nearest_route_loop m cur (map Place cs) (map Place r0) = Inr (map Place (r0 @ []))"
      unfolding Nil by (subst nearest_route_loop.simps) simp
    then show ?thesis using Nil by (intro exI [of _ "[]"]) simp
  next
    case (Cons c0 rest)
    let ?g = "distance_of m cur"
    have hv: "\<forall>p \<in> set cs. haversine m cur (lat p, lng p) = Inr (?g p)"
      using less.prems(1) by (simp add: distance_of_returns)
    from nearest_choice [OF Cons, of ?g] obtain c where
      c: "snd (py_min_by fst (hd (map ?g cs), Place c0) (zip (tl (map ?g cs)) (map Place rest))) = Place c"
         "c \<in> set cs" "\<forall>p \<in> set cs. ?g c \<le> ?g p"
      by blast
    have keys: "mapM (dist_key m cur) (Place c0 # map Place rest) = Inr (map ?g cs)"
      using mapM_dist_places [OF hv] by (simp only: Cons list.map)
    have "nearest_route_loop m cur (Place c0 # map Place rest) (map Place r0)
        = nearest_route_loop m (lat c, lng c) (remove1 (Place c) (Place c0 # map Place rest)) (map Place r0 @ [Place c])"
      using keys c(1) by (rule nearest_route_loop_step) simp
    moreover have "Place c0 # map Place rest = map Place cs" by (simp add: Cons)
    moreover have "remove1 (Place c) (map Place cs) = map Place (remove1 c cs)"
      by (rule remove1_map_inj [OF inj_Place])
    ultimately have step: "nearest_route_loop m cur (map Place cs) (map Place r0)
        = nearest_route_loop m (lat c, lng c) (map Place (remove1 c cs)) (map Place (r0 @ [c]))"
      by simp
    have len: "length (remove1 c cs) < length cs"
      using c(2) length_pos_if_in_set [of c cs] by (simp add: length_remove1)
    have sub: "set (remove1 c cs) \<subseteq> set cs" by (rule set_remove1_subset)
    have h1: "\<forall>p \<in> set (remove1 c cs). returns (haversine m (lat c, lng c) (lat p, lng p))"
      using less.prems(2) c(2) sub by blast
    have h2: "\<forall>q \<in> set (remove1 c cs). \<forall>p \<in> set (remove1 c cs).
                returns (haversine m (lat q, lng q) (lat p, lng p))"
      using less.prems(2) sub by blast
    from less.hyps [OF len h1 h2, of "r0 @ [c]"] obtain rt where
      rt: "nearest_route_loop m (lat c, lng c) (map Place (remove1 c cs)) (map Place (r0 @ [c]))
             = Inr (map Place ((r0 @ [c]) @ rt))"
          "mset rt = mset (remove1 c cs)" "greedy_route m (lat c, lng c) (remove1 c cs) rt"
      by blast
    have "nearest_route_loop m cur (map Place cs) (map Place r0) = Inr (map Place (r0 @ (c # rt)))"
      using step rt(1) by simp
    moreover have "mset (c # rt) = mset cs" using rt(2) c(2) by simp
    moreover have "no_farther m cur c p" if "p \<in> set cs" for p
      using that hv c(2,3) by (simp add: no_farther_def)
    then have "greedy_route m cur cs (c # rt)"
      using c(2) rt(3) by (simp add: list_all_iff)
    ultimately show ?thesis by blast
  qed
qed

text \<open>
  Claim C8, for candidates whose distances can be computed.  For a reference
  coordinate and a list of candidate places such that the haversine distance
  from the reference coordinate to every candidate and between any two
  candidates is computed without an exception, \<open>nearest_route\<close> returns a route of
  the same length in which every input candidate occurs exactly as often as in
  the input, built greedily: each entry is an unvisited candidate at least
  haversine distance (Earth radius 6371 km) from the current position, which
  starts at the reference coordinate and then moves to the entry just appended.
\<close>

theorem nearest_route_greedy_permutation:
  assumes "distances_defined m start_latlng points"
  shows "\<exists>route. nearest_route m start_latlng (map Place points) = Inr (map Place route)
      \<and> length route = length points \<and> mset route = mset points
      \<and> greedy_route m start_latlng points route"
proof -
  from assms have h1: "\<forall>p \<in> set points. returns (haversine m start_latlng (lat p, lng p))"
    and h2: "\<forall>q \<in> set points. \<forall>p \<in> set points. returns (haversine m (lat q, lng q) (lat p, lng p))"
    by (auto simp: distances_defined_def list_all_iff)
  from nearest_route_loop_places [OF h1 h2, of "[]"] obtain rt where
    rt: "nearest_route_loop m start_latlng (map Place points) [] = Inr (map Place rt)"
        "mset rt = mset points" "greedy_route m start_latlng points rt"
    by auto
  from rt(2) have "length rt = length points" by (rule mset_eq_length)
  with rt show ?thesis unfolding nearest_route_def by blast
qed

text \<open>
  Three places on the equator, given from the farthest to the nearest: the route
  from \<open>(0, 0)\<close> visits them from the nearest to the farthest, 0 km, 10007.5 km
  and 20015.1 km away.
\<close>

lemma equator_route:
  "nearest_route glibc (0, 0) (map Place [p_half, p_quarter, p_origin])
     = Inr (map Place [p_origin, p_quarter, p_half])"
  by (simp add: nearest_route_def nearest_route_loop.simps dist_key_def glibc_distances
      p_half_def p_quarter_def p_origin_def place_at_def)

theorem nearest_route_greedy_permutation_witness:
  "distances_defined glibc (0, 0) [p_half, p_quarter, p_origin]
   \<and> (\<exists>route. nearest_route glibc (0, 0) (map Place [p_half, p_quarter, p_origin]) = Inr (map Place route)
         \<and> length route = 3 \<and> mset route = mset [p_half, p_quarter, p_origin]
         \<and> greedy_route glibc (0, 0) [p_half, p_quarter, p_origin] route)
   \<and> nearest_route glibc (0, 0) (map Place [p_half, p_quarter, p_origin])
       = Inr (map Place [p_origin, p_quarter, p_half])"
proof -
  have d: "distances_defined glibc (0, 0) [p_half, p_quarter, p_origin]"
    by (simp add: distances_defined_def returns_def glibc_distances
        p_half_def p_quarter_def p_origin_def place_at_def)
  from nearest_route_greedy_permutation [OF d]
  have "\<exists>route. nearest_route glibc (0, 0) (map Place [p_half, p_quarter, p_origin]) = Inr (map Place route)
         \<and> length route = 3 \<and> mset route = mset [p_half, p_quarter, p_origin]
         \<and> greedy_route glibc (0, 0) [p_half, p_quarter, p_origin] route"
    by (simp add: numeral_3_eq_3)
  with d equator_route show ?thesis by blast
qed

text \<open>
  Claim C8 as stated, for every reference coordinate and every list of
  candidates, does not hold.  From \<open>(8, 0)\<close> to the almost opposite point
  \<open>(- 8, 180)\<close> the haversine argument \<open>x\<close> is computed as 1.0000000000000002, so
  \<^verbatim>\<open>sqrt(1 - x)\<close> raises \<^verbatim>\<open>ValueError\<close>: no route is returned.
\<close>

theorem nearest_route_antipode_counterexample:
  "nearest_route glibc (8, 0) [Place p_antipode] = Inl ValueError"
  by (simp add: nearest_route_def nearest_route_loop.simps dist_key_def glibc_distances
      p_antipode_def place_at_def)

section \<open>Verification of score_candidates\<close>

subsection \<open>Lists computed element by element\<close>

lemma zip_map_same: "zip xs (zip (map f xs) (map g xs)) = map (\<lambda>x. (x, f x, g x)) xs"
  by (induction xs) auto

lemma mapM_map: "mapM f (map h xs) = mapM (\<lambda>x. f (h x)) xs"
  by (induction xs) simp_all

lemma mapM_eq_map:
  assumes "mapM f xs = Inr ys" and "\<And>x y. x \<in> set xs \<Longrightarrow> f x = Inr y \<Longrightarrow> y = g x"
  shows "ys = map g xs"
  using assms
proof (induction xs arbitrary: ys)
  case Nil
  then show ?case by simp
next
  case (Cons x xs)
  from Cons.prems(1) obtain y ys' where y: "f x = Inr y" and r: "mapM f xs = Inr ys'" and e: "ys = y # ys'"
    by (auto simp: sbind_def split: sum.splits)
  have "ys' = map g xs" using r Cons.prems(2) by (intro Cons.IH) auto
  moreover have "y = g x" using y Cons.prems(2) by simp
  ultimately show ?case by (simp add: e)
qed

subsection \<open>Least and greatest rating\<close>

lemma min_vals_nums: "min_vals (PyNum a) (map PyNum as) = Inr (PyNum (fold min as a))"
proof (induction as arbitrary: a)
  case Nil
  then show ?case by simp
next
  case (Cons x as)
  have "(if x < a then PyNum x else PyNum a) = PyNum (min x a)" by (simp add: min_def)
  then show ?case using Cons.IH [of "min x a"] by simp
qed

lemma max_vals_nums: "max_vals (PyNum a) (map PyNum as) = Inr (PyNum (fold max as a))"
proof (induction as arbitrary: a)
  case Nil
  then show ?case by simp
next
  case (Cons x as)
  have "(if a < x then PyNum x else PyNum a) = PyNum (max x a)" by (simp add: max_def)
  then show ?case using Cons.IH [of "max x a"] by simp
qed

lemma pyval_less_Inr: "pyval_less x y = Inr b \<Longrightarrow> \<exists>u v. x = PyNum u \<and> y = PyNum v"
  by (cases x; cases y) simp_all

lemma min_vals_Inr:
  "min_vals best xs = Inr v \<Longrightarrow> xs \<noteq> [] \<Longrightarrow> \<exists>a as. best = PyNum a \<and> xs = map PyNum as"
proof (induction xs arbitrary: best)
  case Nil
  then show ?case by simp
next
  case (Cons x xs)
  from Cons.prems(1) obtain lt where lt: "pyval_less x best = Inr lt"
    and r: "min_vals (if lt then x else best) xs = Inr v"
    by (auto simp: sbind_def split: sum.splits)
  from pyval_less_Inr [OF lt] obtain u a where ua: "x = PyNum u" "best = PyNum a" by blast
  show ?case
  proof (cases "xs = []")
    case True
    then show ?thesis using ua by (intro exI [of _ a] exI [of _ "[u]"]) simp
  next
    case False
    from Cons.IH [OF r False] obtain as where "xs = map PyNum as" by blast
    then show ?thesis using ua by (intro exI [of _ a] exI [of _ "u # as"]) simp
  qed
qed

text \<open>
  When both \<^verbatim>\<open>min(ratings)\<close> and \<^verbatim>\<open>max(ratings)\<close> return, they are equal exactly when
  all ratings are, and if they differ then every rating is a number.
\<close>

lemma ratings_extremes:
  assumes ne: "items \<noteq> []"
    and mn: "min_vals (hd (map rating_or_zero items)) (tl (map rating_or_zero items)) = Inr rmin"
    and mx: "max_vals (hd (map rating_or_zero items)) (tl (map rating_or_zero items)) = Inr rmax"
  shows "(rmax = rmin) = (Max (set (map rating_of items)) = Min (set (map rating_of items)))"
    and "rmax \<noteq> rmin \<Longrightarrow> rmin = PyNum (Min (set (map rating_of items)))
           \<and> rmax = PyNum (Max (set (map rating_of items)))
           \<and> (\<forall>x \<in> set items. rating_or_zero x = PyNum (rating_of x))"
proof -
  obtain x0 rest where items: "items = x0 # rest" using ne by (cases items) auto
  have c: "(rmax = rmin) = (Max (set (map rating_of items)) = Min (set (map rating_of items)))
      \<and> (rmax \<noteq> rmin \<longrightarrow> rmin = PyNum (Min (set (map rating_of items)))
           \<and> rmax = PyNum (Max (set (map rating_of items)))
           \<and> (\<forall>x \<in> set items. rating_or_zero x = PyNum (rating_of x)))"
  proof (cases "rest = []")
    case True
    then show ?thesis using mn mx by (simp add: items)
  next
    case False
    then have t: "tl (map rating_or_zero items) \<noteq> []" by (simp add: items)
    from min_vals_Inr [OF mn t] obtain a as where
      a: "hd (map rating_or_zero items) = PyNum a" "tl (map rating_or_zero items) = map PyNum as"
      by blast
    then have rs: "map rating_or_zero items = map PyNum (a # as)" by (simp add: items)
    have num: "rating_or_zero x = PyNum (rating_of x)" if "x \<in> set items" for x
    proof -
      from that have "rating_or_zero x \<in> set (map rating_or_zero items)" by simp
      then obtain r where "rating_or_zero x = PyNum r" unfolding rs by auto
      then show ?thesis by (simp add: rating_of_def)
    qed
    then have "map rating_or_zero items = map (\<lambda>x. PyNum (rating_of x)) items" by simp
    then have "map PyNum (a # as) = map PyNum (map rating_of items)" by (simp add: rs)
    moreover have "inj PyNum" by (rule injI) simp
    ultimately have vs: "a # as = map rating_of items" by (rule map_injective)
    have "rmin = PyNum (fold min as a)" using mn min_vals_nums [of a as] by (simp add: a)
    then have rmin: "rmin = PyNum (Min (set (map rating_of items)))"
      by (simp only: vs [symmetric] Min.set_eq_fold)
    have "rmax = PyNum (fold max as a)" using mx max_vals_nums [of a as] by (simp add: a)
    then have rmax: "rmax = PyNum (Max (set (map rating_of items)))"
      by (simp only: vs [symmetric] Max.set_eq_fold)
    show ?thesis using rmin rmax num by simp
  qed
  from c show "(rmax = rmin) = (Max (set (map rating_of items)) = Min (set (map rating_of items)))"
    by blast
  from c show "rmax \<noteq> rmin \<Longrightarrow> rmin = PyNum (Min (set (map rating_of items)))
           \<and> rmax = PyNum (Max (set (map rating_of items)))
           \<and> (\<forall>x \<in> set items. rating_or_zero x = PyNum (rating_of x))"
    by blast
qed

subsection \<open>The normalised terms and the score\<close>

lemma fsub_Inr: "fsub a b = Inr r \<Longrightarrow> r = round_double (a - b)"
  unfolding fsub_def by (rule float_result_Inr)

lemma fadd_Inr: "fadd a b = Inr r \<Longrightarrow> r = round_double (a + b)"
  unfolding fadd_def by (rule float_result_Inr)

lemma fmul_Inr: "fmul a b = Inr r \<Longrightarrow> r = round_double (a * b)"
  unfolding fmul_def by (rule float_result_Inr)

lemma fdiv_Inr: "fdiv a b = Inr r \<Longrightarrow> r = round_double (a / b)"
  unfolding fdiv_def by (auto split: if_splits dest: float_result_Inr)

lemma norm_steps:
  assumes "sbind (fsub v lo) (\<lambda>a. sbind (fsub hi lo) (\<lambda>b. fdiv a b)) = Inr t"
  shows "t = round_double (round_double (v - lo) / round_double (hi - lo))"
proof -
  from assms obtain a b where a: "fsub v lo = Inr a" and b: "fsub hi lo = Inr b" and t: "fdiv a b = Inr t"
    by (auto simp: sbind_def split: sum.splits)
  show ?thesis using fsub_Inr [OF a] fsub_Inr [OF b] fdiv_Inr [OF t] by simp
qed

lemma distance_term_norm:
  assumes "distance_term d (Min (set vs)) (Max (set vs)) = Inr dn"
  shows "dn = minmax_norm vs d"
proof (cases "Max (set vs) = Min (set vs)")
  case True
  then show ?thesis using assms by (simp add: distance_term_def minmax_norm_def)
next
  case False
  with assms have "sbind (fsub d (Min (set vs))) (\<lambda>a. sbind (fsub (Max (set vs)) (Min (set vs))) (\<lambda>b. fdiv a b)) = Inr dn"
    by (simp add: distance_term_def)
  from norm_steps [OF this] False show ?thesis by (simp add: minmax_norm_def)
qed

lemma rating_term_norm:
  assumes ne: "items \<noteq> []"
    and mn: "min_vals (hd (map rating_or_zero items)) (tl (map rating_or_zero items)) = Inr rmin"
    and mx: "max_vals (hd (map rating_or_zero items)) (tl (map rating_or_zero items)) = Inr rmax"
    and x: "x \<in> set items"
    and rt: "rating_term (rating_or_zero x) rmin rmax = Inr rn"
  shows "rn = rating_norm items x"
proof (cases "rmax = rmin")
  case True
  then have "Max (set (map rating_of items)) = Min (set (map rating_of items))"
    using ratings_extremes(1) [OF ne mn mx] by simp
  then show ?thesis using rt True by (simp add: rating_term_def rating_norm_def minmax_norm_def)
next
  case False
  let ?vs = "map rating_of items"
  from ratings_extremes(2) [OF ne mn mx False] x
  have e: "rmin = PyNum (Min (set ?vs))" "rmax = PyNum (Max (set ?vs))"
    "rating_or_zero x = PyNum (rating_of x)" by blast+
  have ne': "Max (set ?vs) \<noteq> Min (set ?vs)" using False ratings_extremes(1) [OF ne mn mx] by simp
  have "sbind (fsub (rating_of x) (Min (set ?vs)))
      (\<lambda>a. sbind (fsub (Max (set ?vs)) (Min (set ?vs))) (\<lambda>b. fdiv a b)) = Inr rn"
    using rt False by (simp add: rating_term_def e)
  from norm_steps [OF this] ne' show ?thesis by (simp add: rating_norm_def minmax_norm_def)
qed

lemma blend_score:
  assumes "blend rn dn = Inr s"
  shows "s = double_score rn dn"
proof -
  from assms obtain a b c where a: "fmul d06 rn = Inr a" and b: "fsub 1 dn = Inr b"
    and c: "fmul d04 b = Inr c" and s: "fadd a c = Inr s"
    by (auto simp: blend_def sbind_def split: sum.splits)
  show ?thesis
    using fmul_Inr [OF a] fsub_Inr [OF b] fmul_Inr [OF c] fadd_Inr [OF s]
    by (simp add: double_score_def)
qed

text \<open>The range of the normalised terms and of the score: rounding is monotone.\<close>

lemma minmax_norm_range:
  assumes "v \<in> set vs"
  shows "0 \<le> minmax_norm vs v" and "minmax_norm vs v \<le> 1"
proof -
  let ?lo = "Min (set vs)" and ?hi = "Max (set vs)"
  let ?a = "round_double (v - ?lo)" and ?b = "round_double (?hi - ?lo)"
  have lo: "?lo \<le> v" and hi: "v \<le> ?hi" using assms by simp_all
  have a0: "0 \<le> ?a" using lo by (intro round_double_nonneg) simp
  have ab: "?a \<le> ?b" using lo hi by (intro round_double_mono) simp_all
  have q0: "0 \<le> ?a / ?b" using a0 ab by simp
  have q1: "?a / ?b \<le> 1"
  proof (cases "?b = 0")
    case True
    then show ?thesis by simp
  next
    case False
    with a0 ab have "0 < ?b" by simp
    then show ?thesis using ab by simp
  qed
  have "0 \<le> round_double (?a / ?b)" using q0 by (rule round_double_nonneg)
  then show "0 \<le> minmax_norm vs v" by (simp add: minmax_norm_def)
  have "?a / ?b \<le> of_int 1" using q1 by simp
  with q0 have "round_double (?a / ?b) \<le> of_int 1" by (rule round_double_le_int) simp
  then show "minmax_norm vs v \<le> 1" by (simp add: minmax_norm_def)
qed

lemma minmax_norm_degenerate:
  assumes "xs \<noteq> []" and "\<forall>x \<in> set xs. f x = f (hd xs)"
  shows "minmax_norm (map f xs) v = 0"
proof -
  have "set (map f xs) = {f (hd xs)}" using assms by (cases xs) auto
  then show ?thesis by (simp add: minmax_norm_def)
qed

lemma d06_d04: "round_double d06 = d06" "round_double d04 = d04" "d06 + d04 = 1" "0 \<le> d06" "0 \<le> d04"
  by code_simp+

lemma double_score_range:
  assumes "0 \<le> rn" "rn \<le> 1" "0 \<le> dn" "dn \<le> 1"
  shows "0 \<le> double_score rn dn" and "double_score rn dn \<le> 1"
proof -
  let ?a = "round_double (d06 * rn)"
  let ?b = "round_double (1 - dn)"
  let ?c = "round_double (d04 * ?b)"
  have p0: "0 \<le> d06 * rn" using assms(1) d06_d04(4) by simp
  have "d06 * rn \<le> d06 * 1" using assms(2) d06_d04(4) by (intro mult_left_mono) simp_all
  then have p1: "d06 * rn \<le> d06" by simp
  have a0: "0 \<le> ?a" using p0 by (rule round_double_nonneg)
  have "?a \<le> round_double d06" using p0 p1 by (rule round_double_mono)
  then have a1: "?a \<le> d06" by (simp only: d06_d04(1))
  have b0: "0 \<le> ?b" using assms(4) by (intro round_double_nonneg) simp
  have "1 - dn \<le> of_int 1" using assms(3) by simp
  then have "?b \<le> of_int 1" using assms(4) by (intro round_double_le_int) simp_all
  then have b1: "?b \<le> 1" by simp
  have r0: "0 \<le> d04 * ?b" using b0 d06_d04(5) by simp
  have "d04 * ?b \<le> d04 * 1" using b1 d06_d04(5) by (intro mult_left_mono) simp_all
  then have r1: "d04 * ?b \<le> d04" by simp
  have c0: "0 \<le> ?c" using r0 by (rule round_double_nonneg)
  have "?c \<le> round_double d04" using r0 r1 by (rule round_double_mono)
  then have c1: "?c \<le> d04" by (simp only: d06_d04(2))
  have s0: "0 \<le> ?a + ?c" using a0 c0 by simp
  have "?a + ?c \<le> d06 + d04" using a1 c1 by simp
  then have s1: "?a + ?c \<le> of_int 1" by (simp add: d06_d04(3))
  show "0 \<le> double_score rn dn" unfolding double_score_def using s0 by (rule round_double_nonneg)
  have "round_double (?a + ?c) \<le> of_int 1" using s0 s1 by (rule round_double_le_int) simp
  then show "double_score rn dn \<le> 1" by (simp add: double_score_def)
qed

lemma ranked_properties:
  fixes xs :: "(rat \<times> 'a) list"
  defines "ranked \<equiv> sort_key (\<lambda>t. - fst t) xs"
  shows "mset ranked = mset xs"
    and "sorted_wrt (\<lambda>a b. fst b \<le> fst a) ranked"
    and "filter (\<lambda>t. fst t = s) ranked = filter (\<lambda>t. fst t = s) xs"
proof -
  show "mset ranked = mset xs" by (simp add: ranked_def)
  have "sorted (map (\<lambda>t. - fst t) ranked)" unfolding ranked_def by (rule sorted_sort_key)
  then show "sorted_wrt (\<lambda>a b. fst b \<le> fst a) ranked" by (simp add: sorted_map)
  have "filter (\<lambda>t. - fst t = - s) ranked = filter (\<lambda>t. - fst t = - s) xs"
    unfolding ranked_def by (rule sort_key_stable)
  then show "filter (\<lambda>t. fst t = s) ranked = filter (\<lambda>t. fst t = s) xs" by simp
qed

subsection \<open>The scored list\<close>

lemma scored_formula:
  assumes sc: "scored m start_latlng items = Inr sc" and ne: "items \<noteq> []"
  shows "sc = map (\<lambda>x. (double_score (rating_norm items x) (distance_norm m start_latlng items x), x)) items"
proof -
  let ?h = "\<lambda>x. haversine m start_latlng (lat x, lng x)"
  let ?rs = "map rating_or_zero items"
  from sc obtain dists where d: "mapM ?h items = Inr dists"
    by (cases "mapM ?h items") (auto simp: scored_def)
  have dists: "dists = map (distance_of m start_latlng) items"
    using d by (rule mapM_eq_map) (simp add: distance_of_def)
  let ?ds = "map (distance_of m start_latlng) items"
  from sc d obtain rmin where mn: "min_vals (hd ?rs) (tl ?rs) = Inr rmin"
    by (cases "min_vals (hd ?rs) (tl ?rs)") (auto simp: scored_def Let_def)
  from sc d mn obtain rmax where mx: "max_vals (hd ?rs) (tl ?rs) = Inr rmax"
    by (cases "max_vals (hd ?rs) (tl ?rs)") (auto simp: scored_def Let_def)
  let ?F = "\<lambda>(x, d, r). sbind (distance_term d (Min (set ?ds)) (Max (set ?ds)))
                 (\<lambda>dn. sbind (rating_term r rmin rmax)
                    (\<lambda>rn. sbind (blend rn dn) (\<lambda>score. Inr (score, x))))"
  have "mapM ?F (zip items (zip ?ds ?rs)) = Inr sc"
    using sc d mn mx by (simp add: scored_def Let_def dists)
  then have "mapM (\<lambda>x. ?F (x, distance_of m start_latlng x, rating_or_zero x)) items = Inr sc"
    by (simp only: zip_map_same mapM_map)
  then show ?thesis
  proof (rule mapM_eq_map)
    fix x y
    assume x: "x \<in> set items"
      and y: "?F (x, distance_of m start_latlng x, rating_or_zero x) = Inr y"
    from y obtain dn rn s where
      dn: "distance_term (distance_of m start_latlng x) (Min (set ?ds)) (Max (set ?ds)) = Inr dn"
      and rn: "rating_term (rating_or_zero x) rmin rmax = Inr rn"
      and s: "blend rn dn = Inr s" and e: "y = (s, x)"
      by (auto simp: sbind_def split: sum.splits)
    have "dn = distance_norm m start_latlng items x"
      using distance_term_norm [OF dn] by (simp add: distance_norm_def)
    moreover have "rn = rating_norm items x" using ne mn mx x rn by (rule rating_term_norm)
    moreover have "s = double_score rn dn" using s by (rule blend_score)
    ultimately show "y = (double_score (rating_norm items x) (distance_norm m start_latlng items x), x)"
      by (simp add: e)
  qed
qed

lemma score_range:
  assumes "x \<in> set items"
  shows "0 \<le> double_score (rating_norm items x) (distance_norm m start_latlng items x)"
    and "double_score (rating_norm items x) (distance_norm m start_latlng items x) \<le> 1"
proof -
  have r: "0 \<le> rating_norm items x" "rating_norm items x \<le> 1"
    unfolding rating_norm_def using assms by (auto intro!: minmax_norm_range)
  have d: "0 \<le> distance_norm m start_latlng items x" "distance_norm m start_latlng items x \<le> 1"
    unfolding distance_norm_def using assms by (auto intro!: minmax_norm_range)
  show "0 \<le> double_score (rating_norm items x) (distance_norm m start_latlng items x)"
    using r d by (rule double_score_range)
  show "double_score (rating_norm items x) (distance_norm m start_latlng items x) \<le> 1"
    using r d by (rule double_score_range)
qed

text \<open>
  Claim C7, for the calls that return.  A call of \<open>score_candidates\<close> raises
  \<^verbatim>\<open>ValueError\<close> when the haversine argument of a candidate is rounded above 1,
  and \<^verbatim>\<open>TypeError\<close> when two or more candidates are given and a rating is \<^verbatim>\<open>None\<close>.
  When the scores are computed, for a non-empty candidate list (and a count
  \<open>k \<ge> 0\<close>), every candidate is scored \<open>0.6 * rating_norm + 0.4 * (1 - distance_norm)\<close>
  in double arithmetic, a value in \<open>[0, 1]\<close>; the normalised rating (distance) is
  0 for every candidate when all candidates share the same rating (distance); and
  the result is the first \<open>k\<close> candidates of the scored list arranged by
  descending score, candidates with equal scores staying in their input order.
\<close>

theorem score_candidates_ranking:
  assumes "scored m start_latlng items = Inr sc" and "items \<noteq> []" and "0 \<le> k"
  shows "sc = map (\<lambda>x. (double_score (rating_norm items x) (distance_norm m start_latlng items x), x)) items
     \<and> (\<forall>(s, x) \<in> set sc. 0 \<le> s \<and> s \<le> 1)
     \<and> ((\<forall>x \<in> set items. rating_of x = rating_of (hd items)) \<longrightarrow> (\<forall>x. rating_norm items x = 0))
     \<and> ((\<forall>x \<in> set items. distance_of m start_latlng x = distance_of m start_latlng (hd items))
           \<longrightarrow> (\<forall>x. distance_norm m start_latlng items x = 0))
     \<and> (\<exists>ranked. score_candidates m start_latlng items k = Inr (map snd (take (nat k) ranked))
           \<and> mset ranked = mset sc
           \<and> sorted_wrt (\<lambda>a b. fst b \<le> fst a) ranked
           \<and> (\<forall>s. filter (\<lambda>t. fst t = s) ranked = filter (\<lambda>t. fst t = s) sc))"
proof (intro conjI)
  show f: "sc = map (\<lambda>x. (double_score (rating_norm items x) (distance_norm m start_latlng items x), x)) items"
    using assms(1,2) by (rule scored_formula)
  show "\<forall>(s, x) \<in> set sc. 0 \<le> s \<and> s \<le> 1"
    unfolding f using score_range by auto
  show "(\<forall>x \<in> set items. rating_of x = rating_of (hd items)) \<longrightarrow> (\<forall>x. rating_norm items x = 0)"
    unfolding rating_norm_def using minmax_norm_degenerate [OF assms(2), of rating_of] by blast
  show "(\<forall>x \<in> set items. distance_of m start_latlng x = distance_of m start_latlng (hd items))
           \<longrightarrow> (\<forall>x. distance_norm m start_latlng items x = 0)"
    unfolding distance_norm_def
    using minmax_norm_degenerate [OF assms(2), of "distance_of m start_latlng"] by blast
  let ?ranked = "sort_key (\<lambda>t. - fst t) sc"
  have "score_candidates m start_latlng items k = Inr (map snd (take (nat k) ?ranked))"
    using assms by (simp add: score_candidates_def py_take_def)
  then show "\<exists>ranked. score_candidates m start_latlng items k = Inr (map snd (take (nat k) ranked))
           \<and> mset ranked = mset sc
           \<and> sorted_wrt (\<lambda>a b. fst b \<le> fst a) ranked
           \<and> (\<forall>s. filter (\<lambda>t. fst t = s) ranked = filter (\<lambda>t. fst t = s) sc)"
    using ranked_properties [where xs = sc] by blast
qed

text \<open>
  Three places on the equator seen from \<open>(0, 0)\<close>, rated 4, 3.5 and 5.  The
  distances are 0, 10007.5 and 20015.1 km, normalised to 0, 0.5 and 1; the
  ratings are normalised to 0.3333333333333333, 0 and 1.  The first and the third
  place both score the double 0.6 (for the first, \<open>0.19999999999999998 + 0.4\<close>
  is rounded to it), the second scores 0.2: the two best are the first and the
  third, in their input order.
\<close>

lemma equator_scored:
  "scored glibc (0, 0) [p_origin, p_quarter, p_half]
     = Inr [(5404319552844595 / 9007199254740992, p_origin),
            (3602879701896397 / 18014398509481984, p_quarter),
            (5404319552844595 / 9007199254740992, p_half)]"
  by (simp add: scored_def distance_term_def rating_term_def rating_or_zero_def
      glibc_distances glibc_ops blend_values p_origin_def p_quarter_def p_half_def place_at_def)

lemma equator_best_two:
  "score_candidates glibc (0, 0) [p_origin, p_quarter, p_half] 2 = Inr [p_origin, p_half]"
  by (simp add: score_candidates_def equator_scored py_take_def)

theorem score_candidates_ranking_witness:
  "scored glibc (0, 0) [p_origin, p_quarter, p_half]
     = Inr [(5404319552844595 / 9007199254740992, p_origin),
            (3602879701896397 / 18014398509481984, p_quarter),
            (5404319552844595 / 9007199254740992, p_half)]
   \<and> list_all (\<lambda>(s, x). 0 \<le> s \<and> s \<le> 1)
        [(5404319552844595 / 9007199254740992, p_origin),
         (3602879701896397 / 18014398509481984, p_quarter),
         (5404319552844595 / 9007199254740992 :: rat, p_half)]
   \<and> double_score (rating_norm [p_origin, p_quarter, p_half] p_origin)
        (distance_norm glibc (0, 0) [p_origin, p_quarter, p_half] p_origin)
       = 5404319552844595 / 9007199254740992
   \<and> score_candidates glibc (0, 0) [p_origin, p_quarter, p_half] 2 = Inr [p_origin, p_half]"
proof -
  have "[p_origin, p_quarter, p_half] \<noteq> []" and "(0::int) \<le> 2" by simp_all
  note t = score_candidates_ranking [OF equator_scored this]
  from t have "\<forall>(s, x) \<in> set [(5404319552844595 / 9007199254740992, p_origin),
         (3602879701896397 / 18014398509481984, p_quarter),
         (5404319552844595 / 9007199254740992 :: rat, p_half)]. 0 \<le> s \<and> s \<le> 1"
    by blast
  then have 1: "list_all (\<lambda>(s, x). 0 \<le> s \<and> s \<le> 1)
        [(5404319552844595 / 9007199254740992, p_origin),
         (3602879701896397 / 18014398509481984, p_quarter),
         (5404319552844595 / 9007199254740992 :: rat, p_half)]"
    by (simp only: list_all_iff)
  from t have "[(5404319552844595 / 9007199254740992, p_origin),
         (3602879701896397 / 18014398509481984, p_quarter),
         (5404319552844595 / 9007199254740992, p_half)]
      = map (\<lambda>x. (double_score (rating_norm [p_origin, p_quarter, p_half] x)
                     (distance_norm glibc (0, 0) [p_origin, p_quarter, p_half] x), x))
          [p_origin, p_quarter, p_half]"
    by blast
  then have 2: "double_score (rating_norm [p_origin, p_quarter, p_half] p_origin)
        (distance_norm glibc (0, 0) [p_origin, p_quarter, p_half] p_origin)
       = 5404319552844595 / 9007199254740992"
    by simp
  from equator_scored 1 2 equator_best_two show ?thesis by blast
qed

text \<open>
  Claim C7 as stated, for every non-empty candidate list and reference
  coordinate, does not hold: with the single candidate \<open>(- 8, 180)\<close> seen from
  \<open>(8, 0)\<close> the distance cannot be computed, the call raises \<^verbatim>\<open>ValueError\<close> and no
  candidate is scored.
\<close>

theorem score_candidates_antipode_counterexample:
  "score_candidates glibc (8, 0) [p_antipode] 1 = Inl ValueError"
  by (simp add: score_candidates_def scored_def glibc_distances p_antipode_def place_at_def)

text \<open>And two candidates of which one has the rating \<^verbatim>\<open>None\<close> make the call raise \<^verbatim>\<open>TypeError\<close>.\<close>

lemma score_candidates_none_rating:
  "score_candidates glibc (0, 0) [p_origin, p_half\<lparr>rating := Some PyNone\<rparr>] 1 = Inl TypeError"
  by (simp add: score_candidates_def scored_def rating_or_zero_def glibc_distances
      p_origin_def p_half_def place_at_def)

section \<open>The itinerary assembler\<close>

lemma couple_day: "build_weighted_sequence couple_prefs ''couple'' 1 = Inr [''romantic'', ''scenic'']"
  by code_simp

text \<open>
  Claim C9 says that the slots of a day pair the routed candidates with Morning,
  Afternoon and Evening, that slots beyond the route are marked free exploration,
  and that a day whose category has no candidates still has that slot, marked
  so.  The assembler zips the labels with the route, so a day has exactly as many
  slots as routed places: with no candidates for any category the day's plan is
  there, with its categories, and its slot list is empty.
\<close>

theorem generate_itinerary_no_free_exploration_slot:
  "generate_itinerary m no_places ''couple'' ''Paris'' 1 (Some (0, 0)) False
     = Inr \<lparr>it_destination = ''Paris'', it_latlng = (0, 0), it_traveler_type = ''couple'',
            it_plan = [\<lparr>plan_date = None, plan_weather = None,
                        plan_categories = [''romantic'', ''scenic''],
                        plan_slots = [], plan_alternatives = []\<rparr>],
            it_llm_notes = None\<rparr>"
  by (simp add: generate_itinerary_def no_places_def couple_day sequence_to_days_def day_entry_def
      day_shortlists_def prefer_indoor_if_rain_def score_candidates_def nearest_route_def
      nearest_route_loop.simps upt_rec)

text \<open>
  When a category does have candidates, the points given to \<open>nearest_route\<close>
  are the lists of picks, and the call raises.
\<close>

lemma scored_single: "scored glibc (0, 0) [a_cafe] = Inr [(d04, a_cafe)]"
  by (simp add: scored_def distance_term_def rating_term_def rating_or_zero_def
      glibc_distances blend_values a_cafe_def d04_def)

lemma generate_itinerary_type_error:
  "generate_itinerary glibc one_place ''couple'' ''Paris'' 1 (Some (0, 0)) False = Inl TypeError"
  by (simp add: generate_itinerary_def one_place_def no_places_def couple_day sequence_to_days_def day_entry_def
      day_shortlists_def prefer_indoor_if_rain_def score_candidates_def scored_single py_take_def nearest_route_def
      nearest_route_loop.simps dist_key_def upt_rec)
end
